theory Spec2Isabelle
  imports Main
begin

section \<open>The CSS selector builder of 05-objects-tasks.js\<close>

text \<open>
  The class \<open>SelectorBuild\<close> keeps its parts in a JavaScript \<open>Map\<close> from the name of a
  part kind to either a string (element, id, pseudo-element) or an array of strings
  (class, attr, pseudo-class), and a second array \<open>arrCombine\<close> that \<open>combine\<close> fills.
  Objects and arrays are reference values in JavaScript: \<open>combine\<close> copies references to
  the arrays of its arguments, and every part adder mutates \<open>this\<close>. The embedding
  therefore uses an explicit store with one table for the \<open>SelectorBuild\<close> objects and
  one for the arrays of strings; a method takes the store and returns the store it leaves
  behind, also when it throws.
\<close>

subsection \<open>Values, objects and the store\<close>

type_synonym addr = nat

text \<open>A value held by the \<open>Map\<close> or by \<open>arrCombine\<close>: a string, or a reference to an
  array of strings.\<close>

datatype jsval = Str string | Arr addr

text \<open>The source throws \<open>Error\<close> with one of two messages; the two messages
  are the first two constructors. \<open>TypeError\<close> is what JavaScript throws when \<open>push\<close>
  is called on a value that is not an array.\<close>

datatype error = DuplicatePartError | OrderViolationError | TypeError

record SelectorBuild =
  selectors :: "(string \<times> jsval) list"
  arrCombine :: "jsval list"

record heap =
  objs :: "addr \<Rightarrow> SelectorBuild"
  nextObj :: addr
  arrs :: "addr \<Rightarrow> string list"
  nextArr :: addr

text \<open>The field \<open>positions\<close> is assigned once, in the constructor, to the same literal
  for every object and is never written again; it is a constant here.\<close>

definition positions :: "string list" where
  "positions = [''element'', ''id'', ''class'', ''attr'', ''pseudoClass'', ''pseudoElement'']"

subsection \<open>The operations of \<open>Map\<close> and \<open>Array\<close> that the class uses\<close>

text \<open>A \<open>Map\<close> iterates in insertion order, and \<open>set\<close> on a key that is present keeps
  the key's place: an association list, updated in place or extended at the end.\<close>

definition Map_has :: "(string \<times> jsval) list \<Rightarrow> string \<Rightarrow> bool" where
  "Map_has m k = (k \<in> set (map fst m))"

definition Map_get :: "(string \<times> jsval) list \<Rightarrow> string \<Rightarrow> jsval option" where
  "Map_get m k = map_of m k"

primrec Map_set :: "(string \<times> jsval) list \<Rightarrow> string \<Rightarrow> jsval \<Rightarrow> (string \<times> jsval) list" where
  "Map_set [] k v = [(k, v)]"
| "Map_set (p # ps) k v = (if fst p = k then (k, v) # ps else p # Map_set ps k v)"

definition Map_keys :: "(string \<times> jsval) list \<Rightarrow> string list" where
  "Map_keys m = map fst m"

definition Map_values :: "(string \<times> jsval) list \<Rightarrow> jsval list" where
  "Map_values m = map snd m"

definition Array_includes :: "'a list \<Rightarrow> 'a \<Rightarrow> bool" where
  "Array_includes xs x = (x \<in> set xs)"

text \<open>\<open>indexOf\<close> answers \<open>-1\<close> for an element that does not occur.\<close>

primrec Array_indexOf :: "'a list \<Rightarrow> 'a \<Rightarrow> int" where
  "Array_indexOf [] x = - 1"
| "Array_indexOf (y # ys) x =
     (if y = x then 0
      else (let r = Array_indexOf ys x in if r < 0 then - 1 else r + 1))"

text \<open>\<open>some\<close> with a callback that also takes the index.\<close>

definition Array_some :: "('a \<Rightarrow> nat \<Rightarrow> bool) \<Rightarrow> 'a list \<Rightarrow> bool" where
  "Array_some p xs = list_ex (\<lambda>(i, x). p x i) (enumerate 0 xs)"

text \<open>\<open>flat()\<close> flattens one level: a string stays, an array of strings is replaced by
  its elements as the store holds them now. \<open>join('')\<close> concatenates.\<close>

definition Array_flat :: "heap \<Rightarrow> jsval list \<Rightarrow> string list" where
  "Array_flat h vs = concat (map (\<lambda>v. case v of Str s \<Rightarrow> [s] | Arr r \<Rightarrow> arrs h r) vs)"

definition Array_join :: "string list \<Rightarrow> string" where
  "Array_join ss = concat ss"

definition new_Array :: "heap \<Rightarrow> addr \<times> heap" where
  "new_Array h = (nextArr h, h\<lparr>arrs := (arrs h)(nextArr h := []), nextArr := Suc (nextArr h)\<rparr>)"

definition Array_push :: "addr \<Rightarrow> string \<Rightarrow> heap \<Rightarrow> heap" where
  "Array_push r s h = h\<lparr>arrs := (arrs h)(r := arrs h r @ [s])\<rparr>"

subsection \<open>The class \<open>SelectorBuild\<close>\<close>

definition new_SelectorBuild :: "heap \<Rightarrow> addr \<times> heap" where
  "new_SelectorBuild h =
     (nextObj h,
      h\<lparr>objs := (objs h)(nextObj h := \<lparr>selectors = [], arrCombine = []\<rparr>),
        nextObj := Suc (nextObj h)\<rparr>)"

text \<open>\<open>this.selectors.set(k, v)\<close>.\<close>

definition selectors_set :: "addr \<Rightarrow> string \<Rightarrow> jsval \<Rightarrow> heap \<Rightarrow> heap" where
  "selectors_set this k v h =
     h\<lparr>objs := (objs h)(this := (objs h this)\<lparr>selectors := Map_set (selectors (objs h this)) k v\<rparr>)\<rparr>"

definition isSelectorHas :: "string \<Rightarrow> addr \<Rightarrow> heap \<Rightarrow> heap" where
  "isSelectorHas selector this h =
     (if \<not> Map_has (selectors (objs h this)) selector
      then (let (r, h1) = new_Array h in selectors_set this selector (Arr r) h1)
      else h)"

definition validUniq :: "string \<Rightarrow> addr \<Rightarrow> heap \<Rightarrow> error + unit" where
  "validUniq selector this h =
     (if Map_has (selectors (objs h this)) selector then Inl DuplicatePartError else Inr ())"

definition validPosition :: "addr \<Rightarrow> heap \<Rightarrow> error + unit" where
  "validPosition this h =
     (let selecKeys = Map_keys (selectors (objs h this));
          currentPos = filter (\<lambda>selec. Array_includes selecKeys selec) positions;
          correctPos = Array_some (\<lambda>selec i. int i > Array_indexOf currentPos selec) selecKeys
      in if correctPos then Inl OrderViolationError else Inr ())"

text \<open>The three adders of a single-valued part: check uniqueness, store, check the order.
  The order is checked after the store, on the keys as they are then.\<close>

definition element :: "string \<Rightarrow> addr \<Rightarrow> heap \<Rightarrow> (error + addr) \<times> heap" where
  "element v this h =
     (case validUniq ''element'' this h of
        Inl e \<Rightarrow> (Inl e, h)
      | Inr _ \<Rightarrow>
          (let h1 = selectors_set this ''element'' (Str v) h in
           case validPosition this h1 of
             Inl e \<Rightarrow> (Inl e, h1)
           | Inr _ \<Rightarrow> (Inr this, h1)))"

definition id_sel :: "string \<Rightarrow> addr \<Rightarrow> heap \<Rightarrow> (error + addr) \<times> heap" where
  "id_sel v this h =
     (case validUniq ''id'' this h of
        Inl e \<Rightarrow> (Inl e, h)
      | Inr _ \<Rightarrow>
          (let h1 = selectors_set this ''id'' (Str (''#'' @ v)) h in
           case validPosition this h1 of
             Inl e \<Rightarrow> (Inl e, h1)
           | Inr _ \<Rightarrow> (Inr this, h1)))"

definition pseudoElement :: "string \<Rightarrow> addr \<Rightarrow> heap \<Rightarrow> (error + addr) \<times> heap" where
  "pseudoElement v this h =
     (case validUniq ''pseudoElement'' this h of
        Inl e \<Rightarrow> (Inl e, h)
      | Inr _ \<Rightarrow>
          (let h1 = selectors_set this ''pseudoElement'' (Str (''::'' @ v)) h in
           case validPosition this h1 of
             Inl e \<Rightarrow> (Inl e, h1)
           | Inr _ \<Rightarrow> (Inr this, h1)))"

text \<open>The three adders of a multi-valued part: make sure the key holds an array, push
  the fragment onto that array, check the order. \<open>get\<close> answers \<open>undefined\<close> for a
  missing key, and neither \<open>undefined\<close> nor a string has a \<open>push\<close> to call.\<close>

definition class_sel :: "string \<Rightarrow> addr \<Rightarrow> heap \<Rightarrow> (error + addr) \<times> heap" where
  "class_sel v this h =
     (let h1 = isSelectorHas ''class'' this h in
      case Map_get (selectors (objs h1 this)) ''class'' of
        Some (Arr r) \<Rightarrow>
          (let h2 = Array_push r (''.'' @ v) h1 in
           case validPosition this h2 of
             Inl e \<Rightarrow> (Inl e, h2)
           | Inr _ \<Rightarrow> (Inr this, h2))
      | _ \<Rightarrow> (Inl TypeError, h1))"

definition attr :: "string \<Rightarrow> addr \<Rightarrow> heap \<Rightarrow> (error + addr) \<times> heap" where
  "attr v this h =
     (let h1 = isSelectorHas ''attr'' this h in
      case Map_get (selectors (objs h1 this)) ''attr'' of
        Some (Arr r) \<Rightarrow>
          (let h2 = Array_push r (''['' @ v @ '']'') h1 in
           case validPosition this h2 of
             Inl e \<Rightarrow> (Inl e, h2)
           | Inr _ \<Rightarrow> (Inr this, h2))
      | _ \<Rightarrow> (Inl TypeError, h1))"

definition pseudoClass :: "string \<Rightarrow> addr \<Rightarrow> heap \<Rightarrow> (error + addr) \<times> heap" where
  "pseudoClass v this h =
     (let h1 = isSelectorHas ''pseudoClass'' this h in
      case Map_get (selectors (objs h1 this)) ''pseudoClass'' of
        Some (Arr r) \<Rightarrow>
          (let h2 = Array_push r ('':'' @ v) h1 in
           case validPosition this h2 of
             Inl e \<Rightarrow> (Inl e, h2)
           | Inr _ \<Rightarrow> (Inr this, h2))
      | _ \<Rightarrow> (Inl TypeError, h1))"

text \<open>\<open>combine\<close> evaluates its spread arguments first and then pushes them all.\<close>

definition combine :: "addr \<Rightarrow> string \<Rightarrow> addr \<Rightarrow> addr \<Rightarrow> heap \<Rightarrow> addr \<times> heap" where
  "combine selector1 combinator selector2 this h =
     (let pushed = Map_values (selectors (objs h selector1))
                   @ [Str ('' '' @ combinator @ '' '')]
                   @ Map_values (selectors (objs h selector2))
                   @ arrCombine (objs h selector2)
      in (this,
          h\<lparr>objs := (objs h)(this := (objs h this)\<lparr>arrCombine := arrCombine (objs h this) @ pushed\<rparr>)\<rparr>))"

definition stringify :: "addr \<Rightarrow> heap \<Rightarrow> string" where
  "stringify this h =
     (if length (arrCombine (objs h this)) > 0
      then Array_join (Array_flat h (arrCombine (objs h this)))
      else Array_join (Array_flat h (Map_values (selectors (objs h this)))))"

subsection \<open>The facade \<open>cssSelectorBuilder\<close>\<close>

definition cssSelectorBuilder_element :: "string \<Rightarrow> heap \<Rightarrow> (error + addr) \<times> heap" where
  "cssSelectorBuilder_element v h = (let (a, h1) = new_SelectorBuild h in element v a h1)"

definition cssSelectorBuilder_id :: "string \<Rightarrow> heap \<Rightarrow> (error + addr) \<times> heap" where
  "cssSelectorBuilder_id v h = (let (a, h1) = new_SelectorBuild h in id_sel v a h1)"

definition cssSelectorBuilder_class :: "string \<Rightarrow> heap \<Rightarrow> (error + addr) \<times> heap" where
  "cssSelectorBuilder_class v h = (let (a, h1) = new_SelectorBuild h in class_sel v a h1)"

definition cssSelectorBuilder_attr :: "string \<Rightarrow> heap \<Rightarrow> (error + addr) \<times> heap" where
  "cssSelectorBuilder_attr v h = (let (a, h1) = new_SelectorBuild h in attr v a h1)"

definition cssSelectorBuilder_pseudoClass :: "string \<Rightarrow> heap \<Rightarrow> (error + addr) \<times> heap" where
  "cssSelectorBuilder_pseudoClass v h = (let (a, h1) = new_SelectorBuild h in pseudoClass v a h1)"

definition cssSelectorBuilder_pseudoElement :: "string \<Rightarrow> heap \<Rightarrow> (error + addr) \<times> heap" where
  "cssSelectorBuilder_pseudoElement v h = (let (a, h1) = new_SelectorBuild h in pseudoElement v a h1)"

definition cssSelectorBuilder_combine :: "addr \<Rightarrow> string \<Rightarrow> addr \<Rightarrow> heap \<Rightarrow> addr \<times> heap" where
  "cssSelectorBuilder_combine selec1 separ selec2 h =
     (let (a, h1) = new_SelectorBuild h in combine selec1 separ selec2 a h1)"

subsection \<open>Calls and chains of calls\<close>

text \<open>One call of a part adder, and a chain \<open>s.m1(v1).m2(v2)...\<close>: the chain stops at the
  first call that throws, with the store as that call left it.\<close>

datatype call =
    CallElement string
  | CallId string
  | CallClass string
  | CallAttr string
  | CallPseudoClass string
  | CallPseudoElement string

fun apply_call :: "call \<Rightarrow> addr \<Rightarrow> heap \<Rightarrow> (error + addr) \<times> heap" where
  "apply_call (CallElement v) this h = element v this h"
| "apply_call (CallId v) this h = id_sel v this h"
| "apply_call (CallClass v) this h = class_sel v this h"
| "apply_call (CallAttr v) this h = attr v this h"
| "apply_call (CallPseudoClass v) this h = pseudoClass v this h"
| "apply_call (CallPseudoElement v) this h = pseudoElement v this h"

fun chain :: "call list \<Rightarrow> addr \<Rightarrow> heap \<Rightarrow> (error + addr) \<times> heap" where
  "chain [] this h = (Inr this, h)"
| "chain (c # cs) this h =
     (case apply_call c this h of
        (Inl e, h1) \<Rightarrow> (Inl e, h1)
      | (Inr t, h1) \<Rightarrow> chain cs t h1)"

text \<open>The name of the \<open>Map\<close> key a call works on, the fragment it stores, and the place
  of a key in \<open>positions\<close>.\<close>

fun key_of :: "call \<Rightarrow> string" where
  "key_of (CallElement v) = ''element''"
| "key_of (CallId v) = ''id''"
| "key_of (CallClass v) = ''class''"
| "key_of (CallAttr v) = ''attr''"
| "key_of (CallPseudoClass v) = ''pseudoClass''"
| "key_of (CallPseudoElement v) = ''pseudoElement''"

fun fragment :: "call \<Rightarrow> string" where
  "fragment (CallElement v) = v"
| "fragment (CallId v) = ''#'' @ v"
| "fragment (CallClass v) = ''.'' @ v"
| "fragment (CallAttr v) = ''['' @ v @ '']''"
| "fragment (CallPseudoClass v) = '':'' @ v"
| "fragment (CallPseudoElement v) = ''::'' @ v"

definition canonical_index :: "string \<Rightarrow> int" where
  "canonical_index k = Array_indexOf positions k"

definition is_single :: "string \<Rightarrow> bool" where
  "is_single k = (k = ''element'' \<or> k = ''id'' \<or> k = ''pseudoElement'')"

subsection \<open>Notions used to state the properties\<close>

text \<open>The test of \<open>validPosition\<close> as a function of the list of keys, for any list of
  positions: some key stands at an index greater than its index among the present keys
  taken in the order of the positions.\<close>

definition key_order_broken :: "string list \<Rightarrow> string list \<Rightarrow> bool" where
  "key_order_broken P ks =
     Array_some (\<lambda>selec i. int i > Array_indexOf (filter (\<lambda>selec. Array_includes ks selec) P) selec) ks"

text \<open>The shape shared by \<open>element\<close>, \<open>id\<close> and \<open>pseudoElement\<close>.\<close>

definition set_part :: "string \<Rightarrow> string \<Rightarrow> addr \<Rightarrow> heap \<Rightarrow> (error + addr) \<times> heap" where
  "set_part k s this h =
     (case validUniq k this h of
        Inl e \<Rightarrow> (Inl e, h)
      | Inr _ \<Rightarrow>
          (let h1 = selectors_set this k (Str s) h in
           case validPosition this h1 of
             Inl e \<Rightarrow> (Inl e, h1)
           | Inr _ \<Rightarrow> (Inr this, h1)))"

text \<open>The shape shared by \<open>class\<close>, \<open>attr\<close> and \<open>pseudoClass\<close>.\<close>

definition push_part :: "string \<Rightarrow> string \<Rightarrow> addr \<Rightarrow> heap \<Rightarrow> (error + addr) \<times> heap" where
  "push_part k s this h =
     (let h1 = isSelectorHas k this h in
      case Map_get (selectors (objs h1 this)) k of
        Some (Arr r) \<Rightarrow>
          (let h2 = Array_push r s h1 in
           case validPosition this h2 of
             Inl e \<Rightarrow> (Inl e, h2)
           | Inr _ \<Rightarrow> (Inr this, h2))
      | _ \<Rightarrow> (Inl TypeError, h1))"

text \<open>The fragments that the calls of a list store under one key, in the order of the
  calls.\<close>

definition frags :: "string \<Rightarrow> call list \<Rightarrow> string list" where
  "frags k cs = map fragment (filter (\<lambda>c. key_of c = k) cs)"

text \<open>What \<open>render\<close> is expected to give for a list of calls: for each kind in the order
  of \<open>positions\<close>, the fragments of that kind in the order they were added, nothing
  between them.\<close>

definition canonical_render :: "call list \<Rightarrow> string" where
  "canonical_render cs = concat (map (\<lambda>k. concat (frags k cs)) positions)"

text \<open>The object at \<open>this\<close> holds exactly what the calls \<open>cs\<close> stored: its keys are the
  kinds of the calls in the order of \<open>positions\<close>, a single-valued key holds the one
  fragment, a multi-valued key holds a reference to an array of its own with the
  fragments, and these arrays were allocated at or after address \<open>B\<close>.\<close>

definition built :: "addr \<Rightarrow> call list \<Rightarrow> addr \<Rightarrow> heap \<Rightarrow> bool" where
  "built B cs this h \<longleftrightarrow>
     B \<le> nextArr h \<and>
     Map_keys (selectors (objs h this)) = filter (\<lambda>k. k \<in> key_of ` set cs) positions \<and>
     (\<forall>(k, v) \<in> set (selectors (objs h this)).
        case v of
          Str s \<Rightarrow> is_single k \<and> frags k cs = [s]
        | Arr r \<Rightarrow> \<not> is_single k \<and> B \<le> r \<and> r < nextArr h \<and> arrs h r = frags k cs) \<and>
     (\<forall>k k' r. (k, Arr r) \<in> set (selectors (objs h this)) \<longrightarrow>
                (k', Arr r) \<in> set (selectors (objs h this)) \<longrightarrow> k = k')"

text \<open>Every array reference held by the object at \<open>a\<close> is allocated.\<close>

definition refs_allocated :: "addr \<Rightarrow> heap \<Rightarrow> bool" where
  "refs_allocated a h \<longleftrightarrow>
     (\<forall>r. Arr r \<in> set (Map_values (selectors (objs h a))) \<union> set (arrCombine (objs h a))
          \<longrightarrow> r < nextArr h)"

text \<open>A list of calls applied one after the other by a caller that catches what is
  thrown and goes on with the same object.\<close>

fun apply_all :: "call list \<Rightarrow> addr \<Rightarrow> heap \<Rightarrow> heap" where
  "apply_all [] this h = h"
| "apply_all (c # cs) this h = apply_all cs this (snd (apply_call c this h))"

text \<open>The verdict on a call \<open>c\<close> that follows the accepted calls \<open>cs\<close>, read off the
  code: a single-valued kind that is present is a duplicate; a kind that is not present
  breaks the order when a kind of greater canonical index is; anything else is
  accepted. \<open>first_error\<close> runs a list of calls through it.\<close>

definition verdict :: "call list \<Rightarrow> call \<Rightarrow> error option" where
  "verdict cs c =
     (if key_of c \<in> key_of ` set cs
      then (if is_single (key_of c) then Some DuplicatePartError else None)
      else if \<exists>c'\<in>set cs. canonical_index (key_of c) < canonical_index (key_of c')
      then Some OrderViolationError
      else None)"

fun first_error :: "call list \<Rightarrow> call list \<Rightarrow> error option" where
  "first_error pre [] = None"
| "first_error pre (c # cs) =
     (case verdict pre c of Some e \<Rightarrow> Some e | None \<Rightarrow> first_error (pre @ [c]) cs)"

text \<open>What a part adder on \<open>this\<close> leaves alone: the other objects, the combined chain of
  \<open>this\<close>, the number of objects, and the arrays below address \<open>B\<close>.\<close>

definition touches_only :: "addr \<Rightarrow> addr \<Rightarrow> heap \<Rightarrow> heap \<Rightarrow> bool" where
  "touches_only B this h h' \<longleftrightarrow>
     nextObj h' = nextObj h \<and> nextArr h \<le> nextArr h' \<and>
     (\<forall>b. b \<noteq> this \<longrightarrow> objs h' b = objs h b) \<and>
     arrCombine (objs h' this) = arrCombine (objs h this) \<and>
     (\<forall>r<B. arrs h' r = arrs h r)"

text \<open>The store before anything is allocated.\<close>

definition heap0 :: heap where
  "heap0 = \<lparr>objs = (\<lambda>_. \<lparr>selectors = [], arrCombine = []\<rparr>), nextObj = 0,
            arrs = (\<lambda>_. []), nextArr = 0\<rparr>"

text \<open>The stores that the program can produce: it starts with nothing allocated,
  constructs objects, and calls the methods on objects that exist.\<close>

inductive reachable :: "heap \<Rightarrow> bool" where
  start: "reachable heap0"
| construct: "reachable h \<Longrightarrow> reachable (snd (new_SelectorBuild h))"
| add_part: "reachable h \<Longrightarrow> this < nextObj h \<Longrightarrow> reachable (snd (apply_call c this h))"
| combination: "reachable h \<Longrightarrow> selector1 < nextObj h \<Longrightarrow> selector2 < nextObj h \<Longrightarrow>
    this < nextObj h \<Longrightarrow> reachable (snd (combine selector1 combinator selector2 this h))"

subsection \<open>Stores used as concrete inputs\<close>

text \<open>\<open>element('a')\<close>, \<open>element('b')\<close> and \<open>element('c')\<close>, built through the facade one
  after the other: the objects at addresses 0, 1 and 2.\<close>

definition three_elements :: heap where
  "three_elements =
     snd (cssSelectorBuilder_element ''c''
       (snd (cssSelectorBuilder_element ''b''
         (snd (cssSelectorBuilder_element ''a'' heap0)))))"

text \<open>\<open>element('div').id('main')\<close> at address 0 and \<open>element('table').id('data')\<close> at
  address 1.\<close>

definition two_selectors :: heap where
  "two_selectors =
     snd (chain [CallId ''data''] 1
       (snd (cssSelectorBuilder_element ''table''
         (snd (chain [CallId ''main''] 0
           (snd (cssSelectorBuilder_element ''div'' heap0)))))))"

text \<open>\<open>class('a').attr('b')\<close> at address 0.\<close>

definition class_then_attr :: heap where
  "class_then_attr = snd (chain [CallClass ''a'', CallAttr ''b''] 0 (snd (new_SelectorBuild heap0)))"

text \<open>\<open>id('a')\<close> at address 0.\<close>

definition only_id :: heap where
  "only_id = snd (cssSelectorBuilder_id ''a'' heap0)"

text \<open>\<open>attr('b')\<close> at address 0.\<close>

definition only_attr :: heap where
  "only_attr = snd (cssSelectorBuilder_attr ''b'' heap0)"

text \<open>\<open>element('a').id('b')\<close> at address 0.\<close>

definition element_then_id :: heap where
  "element_then_id = snd (chain [CallId ''b''] 0 (snd (cssSelectorBuilder_element ''a'' heap0)))"

text \<open>\<open>class('a')\<close> at address 0 and \<open>class('b')\<close> at address 1, with their arrays at
  addresses 0 and 1.\<close>

definition two_classes :: heap where
  "two_classes = snd (cssSelectorBuilder_class ''b'' (snd (cssSelectorBuilder_class ''a'' heap0)))"

text \<open>The four selectors of the example in the comment above the class, at addresses
  0 to 3, in the order JavaScript evaluates the arguments.\<close>

definition documented_selectors :: heap where
  "documented_selectors =
     snd (chain [CallPseudoClass ''nth-of-type(even)''] 3
       (snd (cssSelectorBuilder_element ''td''
         (snd (chain [CallPseudoClass ''nth-of-type(even)''] 2
           (snd (cssSelectorBuilder_element ''tr''
             (snd (chain [CallId ''data''] 1
               (snd (cssSelectorBuilder_element ''table''
                 (snd (chain [CallId ''main'', CallClass ''container'', CallClass ''draggable''] 0
                   (snd (cssSelectorBuilder_element ''div'' heap0)))))))))))))))"

section \<open>\<open>fromJSON\<close>: objects with prototypes and JSON text\<close>

text \<open>
  The function is one line,
  \<open>return Object.assign(Object.create(proto), JSON.parse(json))\<close>.
  What it returns is decided by three operations of the language on objects: the object
  \<open>Object.create\<close> allocates and its prototype link, the objects \<open>JSON.parse\<close> builds
  from the text, and the assignment, key by key, that \<open>Object.assign\<close> performs on the
  first with the values of the second. They are embedded here after their definitions in
  ECMAScript (ECMA-262: OrdinaryObjectCreate, JSON.parse with InternalizeJSONProperty left
  out since no reviver is passed, Object.assign, OrdinarySet, OrdinaryOwnPropertyKeys, and
  the accessor \<open>Object.prototype.__proto__\<close> of Annex B) and in ECMA-404 for the grammar
  of the text.

  A JavaScript string is a sequence of UTF-16 code units; a code unit is a natural number
  here, and \<open>js\<close> reads a literal of the theory as such a sequence.
\<close>

subsection \<open>JSON text\<close>

type_synonym jsstring = "nat list"

definition js :: "string \<Rightarrow> jsstring" where
  "js s = map of_char s"

text \<open>The value that a JSON text denotes. A number keeps the code units of its literal:
  nothing below computes with a number. The members of an object are kept in the order of
  the text, duplicates included.\<close>

datatype json =
    JNull
  | JBool bool
  | JNumber jsstring
  | JString jsstring
  | JArray "json list"
  | JObject "(jsstring \<times> json) list"

text \<open>White space is tab, line feed, carriage return and space.\<close>

definition is_ws :: "nat \<Rightarrow> bool" where
  "is_ws c = (c = 0x09 \<or> c = 0x0A \<or> c = 0x0D \<or> c = 0x20)"

definition skip_ws :: "jsstring \<Rightarrow> jsstring" where
  "skip_ws cs = dropWhile is_ws cs"

definition is_digit :: "nat \<Rightarrow> bool" where
  "is_digit c = (0x30 \<le> c \<and> c \<le> 0x39)"

definition hex_digit :: "nat \<Rightarrow> nat option" where
  "hex_digit c =
     (if 0x30 \<le> c \<and> c \<le> 0x39 then Some (c - 0x30)
      else if 0x41 \<le> c \<and> c \<le> 0x46 then Some (c - 0x41 + 10)
      else if 0x61 \<le> c \<and> c \<le> 0x66 then Some (c - 0x61 + 10)
      else None)"

definition hex4 :: "nat \<Rightarrow> nat \<Rightarrow> nat \<Rightarrow> nat \<Rightarrow> nat option" where
  "hex4 a b c d =
     (case (hex_digit a, hex_digit b, hex_digit c, hex_digit d) of
        (Some x, Some y, Some z, Some w) \<Rightarrow> Some (((x * 16 + y) * 16 + z) * 16 + w)
      | _ \<Rightarrow> None)"

text \<open>The code unit that follows a backslash, other than \<open>u\<close>, and the one it stands
  for.\<close>

definition escape :: "nat \<Rightarrow> nat option" where
  "escape e =
     (if e = 0x22 then Some 0x22
      else if e = 0x2F then Some 0x2F
      else if e = 0x5C then Some 0x5C
      else if e = 0x62 then Some 0x08
      else if e = 0x66 then Some 0x0C
      else if e = 0x6E then Some 0x0A
      else if e = 0x72 then Some 0x0D
      else if e = 0x74 then Some 0x09
      else None)"

definition consed :: "'a \<Rightarrow> ('a list \<times> 'b) option \<Rightarrow> ('a list \<times> 'b) option" where
  "consed x r = (case r of None \<Rightarrow> None | Some (xs, t) \<Rightarrow> Some (x # xs, t))"

text \<open>The characters of a string after its opening quotation mark, up to the closing
  one: the string's value and the rest of the text. A control character below \<open>0x20\<close>
  is not allowed.\<close>

fun parse_chars :: "jsstring \<Rightarrow> (jsstring \<times> jsstring) option" where
  "parse_chars [] = None"
| "parse_chars (c # cs) =
     (if c = 0x22 then Some ([], cs)
      else if c = 0x5C then
        (case cs of
           [] \<Rightarrow> None
         | e # r \<Rightarrow>
             if e = 0x75 then
               (case r of
                  a # b # c' # d # r' \<Rightarrow>
                    (case hex4 a b c' d of
                       None \<Rightarrow> None
                     | Some u \<Rightarrow> consed u (parse_chars r'))
                | _ \<Rightarrow> None)
             else
               (case escape e of
                  None \<Rightarrow> None
                | Some u \<Rightarrow> consed u (parse_chars r)))
      else if c < 0x20 then None
      else consed c (parse_chars cs))"

definition digits1 :: "jsstring \<Rightarrow> (jsstring \<times> jsstring) option" where
  "digits1 cs = (if takeWhile is_digit cs = [] then None
                 else Some (takeWhile is_digit cs, dropWhile is_digit cs))"

definition parse_int :: "jsstring \<Rightarrow> (jsstring \<times> jsstring) option" where
  "parse_int cs =
     (case cs of
        [] \<Rightarrow> None
      | d # r \<Rightarrow>
          if d = 0x30 then Some ([d], r)
          else if is_digit d then Some (d # takeWhile is_digit r, dropWhile is_digit r)
          else None)"

definition parse_fraction :: "jsstring \<Rightarrow> (jsstring \<times> jsstring) option" where
  "parse_fraction cs =
     (case cs of
        [] \<Rightarrow> Some ([], cs)
      | p # r \<Rightarrow>
          if p = 0x2E then (case digits1 r of None \<Rightarrow> None | Some (ds, t) \<Rightarrow> Some (p # ds, t))
          else Some ([], cs))"

definition parse_exponent :: "jsstring \<Rightarrow> (jsstring \<times> jsstring) option" where
  "parse_exponent cs =
     (case cs of
        [] \<Rightarrow> Some ([], cs)
      | e # r \<Rightarrow>
          if e = 0x65 \<or> e = 0x45 then
            (case r of
               [] \<Rightarrow> None
             | s # r' \<Rightarrow>
                 if s = 0x2B \<or> s = 0x2D
                 then (case digits1 r' of None \<Rightarrow> None | Some (ds, t) \<Rightarrow> Some (e # s # ds, t))
                 else (case digits1 r of None \<Rightarrow> None | Some (ds, t) \<Rightarrow> Some (e # ds, t)))
          else Some ([], cs))"

definition parse_number :: "jsstring \<Rightarrow> (jsstring \<times> jsstring) option" where
  "parse_number cs =
     (let (sign, r0) = (case cs of [] \<Rightarrow> ([], []) | c # r \<Rightarrow> if c = 0x2D then ([c], r) else ([], cs)) in
      case parse_int r0 of
        None \<Rightarrow> None
      | Some (i, r1) \<Rightarrow>
          (case parse_fraction r1 of
             None \<Rightarrow> None
           | Some (f, r2) \<Rightarrow>
               (case parse_exponent r2 of
                  None \<Rightarrow> None
                | Some (e, r3) \<Rightarrow> Some (sign @ i @ f @ e, r3))))"

definition parse_word :: "jsstring \<Rightarrow> json \<Rightarrow> jsstring \<Rightarrow> (json \<times> jsstring) option" where
  "parse_word w v cs = (if take (length w) cs = w then Some (v, drop (length w) cs) else None)"

text \<open>A value, the members of an object after its opening brace, and the elements of an
  array after its opening bracket. The first argument bounds the number of nested calls;
  a call passes a remainder of the text that is shorter by a code unit at least every
  second time, so a bound above twice the length of the text is never reached
  (\<open>parse_value_fuel\<close>).\<close>

fun parse_value :: "nat \<Rightarrow> jsstring \<Rightarrow> (json \<times> jsstring) option"
  and parse_members :: "nat \<Rightarrow> jsstring \<Rightarrow> ((jsstring \<times> json) list \<times> jsstring) option"
  and parse_elements :: "nat \<Rightarrow> jsstring \<Rightarrow> (json list \<times> jsstring) option" where
  "parse_value 0 cs = None"
| "parse_value (Suc n) cs =
     (case skip_ws cs of
        [] \<Rightarrow> None
      | c # r \<Rightarrow>
          if c = 0x7B then
            (case skip_ws r of
               [] \<Rightarrow> None
             | d # r' \<Rightarrow>
                 if d = 0x7D then Some (JObject [], r')
                 else (case parse_members n (d # r') of
                         None \<Rightarrow> None
                       | Some (ms, t) \<Rightarrow> Some (JObject ms, t)))
          else if c = 0x5B then
            (case skip_ws r of
               [] \<Rightarrow> None
             | d # r' \<Rightarrow>
                 if d = 0x5D then Some (JArray [], r')
                 else (case parse_elements n (d # r') of
                         None \<Rightarrow> None
                       | Some (es, t) \<Rightarrow> Some (JArray es, t)))
          else if c = 0x22 then
            (case parse_chars r of None \<Rightarrow> None | Some (s, t) \<Rightarrow> Some (JString s, t))
          else if c = 0x2D \<or> is_digit c then
            (case parse_number (c # r) of None \<Rightarrow> None | Some (s, t) \<Rightarrow> Some (JNumber s, t))
          else if c = 0x74 then parse_word (js ''true'') (JBool True) (c # r)
          else if c = 0x66 then parse_word (js ''false'') (JBool False) (c # r)
          else if c = 0x6E then parse_word (js ''null'') JNull (c # r)
          else None)"
| "parse_members 0 cs = None"
| "parse_members (Suc n) cs =
     (case cs of
        [] \<Rightarrow> None
      | q # r \<Rightarrow>
          if q \<noteq> 0x22 then None
          else
            (case parse_chars r of
               None \<Rightarrow> None
             | Some (k, r1) \<Rightarrow>
                 (case skip_ws r1 of
                    [] \<Rightarrow> None
                  | colon # r2 \<Rightarrow>
                      if colon \<noteq> 0x3A then None
                      else
                        (case parse_value n r2 of
                           None \<Rightarrow> None
                         | Some (v, r3) \<Rightarrow>
                             (case skip_ws r3 of
                                [] \<Rightarrow> None
                              | d # r4 \<Rightarrow>
                                  if d = 0x7D then Some ([(k, v)], r4)
                                  else if d = 0x2C then consed (k, v) (parse_members n (skip_ws r4))
                                  else None)))))"
| "parse_elements 0 cs = None"
| "parse_elements (Suc n) cs =
     (case parse_value n cs of
        None \<Rightarrow> None
      | Some (v, r1) \<Rightarrow>
          (case skip_ws r1 of
             [] \<Rightarrow> None
           | d # r2 \<Rightarrow>
               if d = 0x5D then Some ([v], r2)
               else if d = 0x2C then consed v (parse_elements n r2)
               else None))"

text \<open>A JSON text is one value with white space around it; \<open>None\<close> is the
  \<open>SyntaxError\<close> of \<open>JSON.parse\<close>. A larger bound gives the same answer
  (\<open>parse_text_fuel\<close>).\<close>

definition parse_text :: "jsstring \<Rightarrow> json option" where
  "parse_text text =
     (case parse_value (Suc (length text + length text)) text of
        None \<Rightarrow> None
      | Some (v, r) \<Rightarrow> if skip_ws r = [] then Some v else None)"

subsection \<open>Objects, properties and prototype links\<close>

text \<open>
  A value of the language. An object is a reference into the store. A function is kept as
  an opaque value: no function is called by \<open>fromJSON\<close> except the setter of
  \<open>__proto__\<close>, which is embedded below, and a function is never the prototype or the
  target here.
\<close>

datatype jsvalue =
    VUndefined
  | VNull
  | VBoolean bool
  | VNumber jsstring
  | VString jsstring
  | VFunction nat
  | VObject addr

text \<open>
  A property is a data property, with its value and its attributes \<open>writable\<close> and
  \<open>enumerable\<close>, or the accessor \<open>__proto__\<close> of \<open>Object.prototype\<close>, the one accessor
  of the initial objects that a string key reaches. The attribute \<open>configurable\<close> and the
  extensibility of an object are left out: no operation below reads them on the objects
  that \<open>fromJSON\<close> allocates, which are extensible and whose properties are all
  configurable. Keys are strings: a key of a JSON text is never a symbol.
\<close>

datatype property =
    Data jsvalue bool bool
  | ProtoAccessor

text \<open>An object has a prototype link (\<open>None\<close> is \<open>null\<close>) and its own properties in the
  order of their creation.\<close>

record jsobject =
  prototype :: "addr option"
  properties :: "(jsstring \<times> property) list"

record realm =
  object_at :: "addr \<Rightarrow> jsobject"
  next_object :: addr

datatype js_error = JSSyntaxError | JSTypeError

definition Object_prototype :: addr where
  "Object_prototype = 0"

definition Array_prototype :: addr where
  "Array_prototype = 1"

definition new_object :: "addr option \<Rightarrow> (jsstring \<times> property) list \<Rightarrow> realm \<Rightarrow> addr \<times> realm" where
  "new_object p ps h =
     (next_object h,
      h\<lparr>object_at := (object_at h)(next_object h := \<lparr>prototype = p, properties = ps\<rparr>),
        next_object := Suc (next_object h)\<rparr>)"

text \<open>CreateDataProperty on an ordinary object: a key that exists keeps its place.\<close>

primrec define_own :: "(jsstring \<times> property) list \<Rightarrow> jsstring \<Rightarrow> property \<Rightarrow> (jsstring \<times> property) list" where
  "define_own [] k p = [(k, p)]"
| "define_own (q # qs) k p = (if fst q = k then (k, p) # qs else q # define_own qs k p)"

definition define_property :: "addr \<Rightarrow> jsstring \<Rightarrow> property \<Rightarrow> realm \<Rightarrow> realm" where
  "define_property a k p h =
     h\<lparr>object_at := (object_at h)(a := (object_at h a)\<lparr>properties := define_own (properties (object_at h a)) k p\<rparr>)\<rparr>"

definition set_prototype :: "addr \<Rightarrow> addr option \<Rightarrow> realm \<Rightarrow> realm" where
  "set_prototype a p h = h\<lparr>object_at := (object_at h)(a := (object_at h a)\<lparr>prototype := p\<rparr>)\<rparr>"

text \<open>The decimal digits of an array index.\<close>

fun decimal :: "nat \<Rightarrow> jsstring" where
  "decimal n = (if n < 10 then [0x30 + n] else decimal (n div 10) @ [0x30 + n mod 10])"

declare decimal.simps [simp del]

definition index_value :: "jsstring \<Rightarrow> nat" where
  "index_value k = foldl (\<lambda>n c. 10 * n + (c - 0x30)) 0 k"

text \<open>An array index is the canonical decimal string of an integer below \<open>2^32 - 1\<close>.\<close>

definition is_array_index :: "jsstring \<Rightarrow> bool" where
  "is_array_index k =
     (k \<noteq> [] \<and> list_all is_digit k \<and> (k = [0x30] \<or> hd k \<noteq> 0x30) \<and> index_value k < 4294967295)"

text \<open>OrdinaryOwnPropertyKeys: the array indices in ascending order, then the other
  strings in the order of their creation.\<close>

definition own_property_keys :: "jsobject \<Rightarrow> jsstring list" where
  "own_property_keys ob =
     (let ks = map fst (properties ob)
      in sort_key index_value (filter is_array_index ks) @ filter (\<lambda>k. \<not> is_array_index k) ks)"

subsection \<open>\<open>JSON.parse\<close>\<close>

text \<open>
  The objects of a parsed text. An object of the text becomes a new object whose prototype
  is \<open>Object.prototype\<close>, an array a new object whose prototype is \<open>Array.prototype\<close>
  with a \<open>length\<close>. Each member is written with CreateDataProperty, as an own data
  property that is writable and enumerable, whatever its key: no setter is called, so a
  member named \<open>__proto__\<close> is an own property of the parsed object like any other.
\<close>

fun make_value :: "json \<Rightarrow> realm \<Rightarrow> jsvalue \<times> realm"
  and make_members :: "(jsstring \<times> json) list \<Rightarrow> addr \<Rightarrow> realm \<Rightarrow> realm"
  and make_elements :: "json list \<Rightarrow> nat \<Rightarrow> addr \<Rightarrow> realm \<Rightarrow> realm" where
  "make_value JNull h = (VNull, h)"
| "make_value (JBool b) h = (VBoolean b, h)"
| "make_value (JNumber s) h = (VNumber s, h)"
| "make_value (JString s) h = (VString s, h)"
| "make_value (JObject ms) h =
     (let (a, h1) = new_object (Some Object_prototype) [] h
      in (VObject a, make_members ms a h1))"
| "make_value (JArray es) h =
     (let (a, h1) = new_object (Some Array_prototype)
                      [(js ''length'', Data (VNumber (decimal 0)) True False)] h
      in (VObject a, make_elements es 0 a h1))"
| "make_members [] a h = h"
| "make_members (m # ms) a h =
     (let (v, h1) = make_value (snd m) h
      in make_members ms a (define_property a (fst m) (Data v True True) h1))"
| "make_elements [] i a h = h"
| "make_elements (e # es) i a h =
     (let (v, h1) = make_value e h;
          h2 = define_property a (decimal i) (Data v True True) h1;
          h3 = define_property a (js ''length'') (Data (VNumber (decimal (Suc i))) True False) h2
      in make_elements es (Suc i) a h3)"

definition JSON_parse :: "jsstring \<Rightarrow> realm \<Rightarrow> (js_error + jsvalue) \<times> realm" where
  "JSON_parse text h =
     (case parse_text text of
        None \<Rightarrow> (Inl JSSyntaxError, h)
      | Some t \<Rightarrow> (let (v, h1) = make_value t h in (Inr v, h1)))"

subsection \<open>Reading and writing a property\<close>

text \<open>
  The first property named \<open>k\<close> on a prototype chain. A chain is finite in JavaScript
  (the setter below refuses a link that would close a cycle) and passes through distinct
  objects, so the walk is given the number of objects of the store as its bound.
\<close>

datatype found = NotFound | FoundData jsvalue bool | FoundAccessor

fun find_on_chain :: "nat \<Rightarrow> realm \<Rightarrow> addr option \<Rightarrow> jsstring \<Rightarrow> found" where
  "find_on_chain 0 h p k = NotFound"
| "find_on_chain (Suc n) h None k = NotFound"
| "find_on_chain (Suc n) h (Some a) k =
     (case map_of (properties (object_at h a)) k of
        None \<Rightarrow> find_on_chain n h (prototype (object_at h a)) k
      | Some (Data v w e) \<Rightarrow> FoundData v w
      | Some ProtoAccessor \<Rightarrow> FoundAccessor)"

fun on_chain :: "nat \<Rightarrow> realm \<Rightarrow> addr option \<Rightarrow> addr \<Rightarrow> bool" where
  "on_chain 0 h p a = False"
| "on_chain (Suc n) h None a = False"
| "on_chain (Suc n) h (Some b) a = (b = a \<or> on_chain n h (prototype (object_at h b)) a)"

text \<open>The chain that starts at \<open>p\<close> reaches \<open>null\<close> within \<open>n\<close> links. On such a
  chain a walk with a bound of \<open>n\<close> or more has the answer of the walk without a bound
  (\<open>find_on_chain_fuel\<close>, \<open>on_chain_fuel\<close>).\<close>

fun chain_ends :: "nat \<Rightarrow> realm \<Rightarrow> addr option \<Rightarrow> bool" where
  "chain_ends n h None = True"
| "chain_ends 0 h (Some a) = False"
| "chain_ends (Suc n) h (Some a) = chain_ends n h (prototype (object_at h a))"

text \<open>Every prototype link leads to an object that was allocated earlier. The initial
  store has this property and allocation keeps it, and the number of objects is then a
  bound that no walk reaches (\<open>links_down_fuel\<close>). The setter of \<open>__proto__\<close> need not
  keep it.\<close>

definition links_down :: "realm \<Rightarrow> bool" where
  "links_down h = (\<forall>a p. prototype (object_at h a) = Some p \<longrightarrow> p < a)"

text \<open>
  The setter of \<open>Object.prototype.__proto__\<close>, called with the receiver of the
  assignment as \<open>this\<close>: a value that is neither an object nor \<open>null\<close> is ignored;
  otherwise the prototype link of \<open>this\<close> is replaced (OrdinarySetPrototypeOf), unless
  \<open>this\<close> is on the chain of the new prototype, which is a \<open>TypeError\<close>.
\<close>

definition proto_of_value :: "jsvalue \<Rightarrow> addr option option" where
  "proto_of_value v = (case v of VObject p \<Rightarrow> Some (Some p) | VNull \<Rightarrow> Some None | _ \<Rightarrow> None)"

definition proto_setter :: "addr \<Rightarrow> jsvalue \<Rightarrow> realm \<Rightarrow> (js_error + unit) \<times> realm" where
  "proto_setter this v h =
     (case proto_of_value v of
        None \<Rightarrow> (Inr (), h)
      | Some p \<Rightarrow>
          if p = prototype (object_at h this) then (Inr (), h)
          else if on_chain (next_object h) h p this then (Inl JSTypeError, h)
          else (Inr (), set_prototype this p h))"

definition proto_getter :: "addr \<Rightarrow> realm \<Rightarrow> jsvalue" where
  "proto_getter this h = (case prototype (object_at h this) of None \<Rightarrow> VNull | Some p \<Rightarrow> VObject p)"

text \<open>Reading \<open>a.k\<close>: the value of the first property named \<open>k\<close> on the chain that
  starts at \<open>a\<close>, \<open>undefined\<close> when there is none. This is how a method of the prototype
  is available on an object.\<close>

definition get_property :: "addr \<Rightarrow> jsstring \<Rightarrow> realm \<Rightarrow> jsvalue" where
  "get_property a k h =
     (case find_on_chain (next_object h) h (Some a) k of
        NotFound \<Rightarrow> VUndefined
      | FoundData v w \<Rightarrow> v
      | FoundAccessor \<Rightarrow> proto_getter a h)"

text \<open>
  Writing \<open>a.k = v\<close> in strict code (OrdinarySet with the receiver \<open>a\<close>): an own data
  property is updated; without an own property the chain decides: nothing found, or a
  writable data property found, creates an own property of \<open>a\<close>; a data property that is
  not writable is a \<open>TypeError\<close>; an accessor has its setter called, and no property is
  created.
\<close>

definition set_property :: "addr \<Rightarrow> jsstring \<Rightarrow> jsvalue \<Rightarrow> realm \<Rightarrow> (js_error + unit) \<times> realm" where
  "set_property a k v h =
     (case map_of (properties (object_at h a)) k of
        Some (Data u w e) \<Rightarrow>
          if w then (Inr (), define_property a k (Data v w e) h) else (Inl JSTypeError, h)
      | Some ProtoAccessor \<Rightarrow> proto_setter a v h
      | None \<Rightarrow>
          (case find_on_chain (next_object h) h (prototype (object_at h a)) k of
             NotFound \<Rightarrow> (Inr (), define_property a k (Data v True True) h)
           | FoundData u w \<Rightarrow>
               if w then (Inr (), define_property a k (Data v True True) h) else (Inl JSTypeError, h)
           | FoundAccessor \<Rightarrow> proto_setter a v h))"

subsection \<open>\<open>Object.assign\<close>, \<open>Object.create\<close> and \<open>fromJSON\<close>\<close>

text \<open>
  \<open>Object.assign(target, source)\<close> takes the own property keys of the source in their
  order and, for each one that is still an enumerable own property, reads the value and
  writes it to the target with the assignment above. A source that is a string has its
  code units as properties; another primitive has none.
\<close>

fun assign_keys :: "jsstring list \<Rightarrow> addr \<Rightarrow> addr \<Rightarrow> realm \<Rightarrow> (js_error + unit) \<times> realm" where
  "assign_keys [] from to h = (Inr (), h)"
| "assign_keys (k # ks) from to h =
     (case map_of (properties (object_at h from)) k of
        Some (Data v w True) \<Rightarrow>
          (case set_property to k v h of
             (Inl e, h1) \<Rightarrow> (Inl e, h1)
           | (Inr _, h1) \<Rightarrow> assign_keys ks from to h1)
      | _ \<Rightarrow> assign_keys ks from to h)"

fun assign_chars :: "jsstring \<Rightarrow> nat \<Rightarrow> addr \<Rightarrow> realm \<Rightarrow> (js_error + unit) \<times> realm" where
  "assign_chars [] i to h = (Inr (), h)"
| "assign_chars (c # cs) i to h =
     (case set_property to (decimal i) (VString [c]) h of
        (Inl e, h1) \<Rightarrow> (Inl e, h1)
      | (Inr _, h1) \<Rightarrow> assign_chars cs (Suc i) to h1)"

definition Object_assign :: "jsvalue \<Rightarrow> jsvalue \<Rightarrow> realm \<Rightarrow> (js_error + jsvalue) \<times> realm" where
  "Object_assign target source h =
     (case target of
        VObject to \<Rightarrow>
          (case (case source of
                   VObject from \<Rightarrow> assign_keys (own_property_keys (object_at h from)) from to h
                 | VString s \<Rightarrow> assign_chars s 0 to h
                 | _ \<Rightarrow> (Inr (), h)) of
             (Inl e, h1) \<Rightarrow> (Inl e, h1)
           | (Inr _, h1) \<Rightarrow> (Inr target, h1))
      | _ \<Rightarrow> (Inl JSTypeError, h))"

text \<open>\<open>Object.create(proto)\<close> for a prototype that is an object or \<open>null\<close>: a new object
  without properties.\<close>

definition Object_create :: "addr option \<Rightarrow> realm \<Rightarrow> jsvalue \<times> realm" where
  "Object_create proto h = (let (a, h1) = new_object proto [] h in (VObject a, h1))"

text \<open>The function of the source. The arguments of \<open>Object.assign\<close> are evaluated from
  left to right: the target is allocated before the text is parsed.\<close>

definition fromJSON :: "addr option \<Rightarrow> jsstring \<Rightarrow> realm \<Rightarrow> (js_error + jsvalue) \<times> realm" where
  "fromJSON proto json h =
     (let (target, h1) = Object_create proto h in
      case JSON_parse json h1 of
        (Inl e, h2) \<Rightarrow> (Inl e, h2)
      | (Inr source, h2) \<Rightarrow> Object_assign target source h2)"

subsection \<open>The initial objects and the prototype of the source's example\<close>

text \<open>
  The two initial objects that the objects of a parsed text link to, with their
  string-keyed properties: \<open>Object.prototype\<close> at address 0 and \<open>Array.prototype\<close> at
  address 1. Their methods are writable and not enumerable.
\<close>

definition builtin :: "nat \<Rightarrow> string \<Rightarrow> jsstring \<times> property" where
  "builtin i name = (js name, Data (VFunction i) True False)"

fun builtins :: "nat \<Rightarrow> string list \<Rightarrow> (jsstring \<times> property) list" where
  "builtins i [] = []"
| "builtins i (name # names) = builtin i name # builtins (Suc i) names"

definition Array_prototype_methods :: "string list" where
  "Array_prototype_methods =
     [''at'', ''concat'', ''copyWithin'', ''entries'', ''every'', ''fill'', ''filter'', ''find'',
      ''findIndex'', ''findLast'', ''findLastIndex'', ''flat'', ''flatMap'', ''forEach'',
      ''includes'', ''indexOf'', ''join'', ''keys'', ''lastIndexOf'', ''map'', ''pop'', ''push'',
      ''reduce'', ''reduceRight'', ''reverse'', ''shift'', ''slice'', ''some'', ''sort'',
      ''splice'', ''toLocaleString'', ''toReversed'', ''toSorted'', ''toSpliced'', ''toString'',
      ''unshift'', ''values'', ''with'']"

definition realm0 :: realm where
  "realm0 =
     \<lparr>object_at = (\<lambda>_. \<lparr>prototype = None, properties = []\<rparr>)
        (0 := \<lparr>prototype = None,
               properties =
                 [builtin 0 ''constructor'', builtin 1 ''hasOwnProperty'', builtin 2 ''isPrototypeOf'',
                  builtin 3 ''propertyIsEnumerable'', builtin 4 ''toLocaleString'', builtin 5 ''toString'',
                  builtin 6 ''valueOf'', (js ''__proto__'', ProtoAccessor),
                  builtin 7 ''__defineGetter__'', builtin 8 ''__defineSetter__'',
                  builtin 9 ''__lookupGetter__'', builtin 10 ''__lookupSetter__'']\<rparr>,
         1 := \<lparr>prototype = Some 0,
               properties =
                 (js ''length'', Data (VNumber (decimal 0)) True False) #
                 builtin 11 ''constructor'' # builtins 12 Array_prototype_methods\<rparr>),
      next_object = 2\<rparr>"

text \<open>
  The comment above \<open>fromJSON\<close> gives \<open>fromJSON(Circle.prototype, '{"radius":10}')\<close> as
  its example. \<open>with_Circle\<close> is the initial store with the prototype object of such a
  class at address 2: its \<open>constructor\<close> and one method, \<open>getArea\<close>.
\<close>

definition with_Circle :: realm where
  "with_Circle =
     snd (new_object (Some Object_prototype)
            [builtin 100 ''constructor'', builtin 101 ''getArea''] realm0)"

section \<open>Lemmas\<close>

text \<open>The definitions that evaluate a concrete run.\<close>

lemmas eval_defs =
  heap0_def new_SelectorBuild_def new_Array_def Array_push_def selectors_set_def isSelectorHas_def
  validUniq_def validPosition_def element_def id_sel_def pseudoElement_def
  class_sel_def attr_def pseudoClass_def combine_def stringify_def
  cssSelectorBuilder_element_def cssSelectorBuilder_id_def cssSelectorBuilder_class_def
  cssSelectorBuilder_attr_def cssSelectorBuilder_pseudoClass_def cssSelectorBuilder_pseudoElement_def
  cssSelectorBuilder_combine_def
  Map_has_def Map_get_def Map_keys_def Map_values_def Array_includes_def Array_some_def
  Array_flat_def Array_join_def positions_def


subsection \<open>Arrays: \<open>some\<close>, \<open>indexOf\<close> and the order test\<close>

lemma Array_some_iff: "Array_some p xs \<longleftrightarrow> (\<exists>i<length xs. p (xs ! i) i)"
  by (auto simp: Array_some_def list_ex_iff in_set_enumerate_eq)

lemma indexOf_ge: "- 1 \<le> Array_indexOf xs x"
  by (induction xs) (auto simp: Let_def)

lemma indexOf_absent: "x \<notin> set xs \<Longrightarrow> Array_indexOf xs x = - 1"
  by (induction xs) (auto simp: Let_def)

lemma indexOf_present: "x \<in> set xs \<Longrightarrow> 0 \<le> Array_indexOf xs x \<and> Array_indexOf xs x < int (length xs)"
  by (induction xs) (auto simp: Let_def)

lemma indexOf_append:
  "Array_indexOf (xs @ ys) x =
     (if x \<in> set xs then Array_indexOf xs x
      else if x \<in> set ys then int (length xs) + Array_indexOf ys x else - 1)"
proof (induction xs)
  case Nil
  then show ?case by (simp add: indexOf_absent)
next
  case (Cons a xs)
  then show ?case
    using indexOf_present[of x xs] indexOf_present[of x ys]
    by (auto simp: Let_def)
qed

lemma indexOf_nth: "distinct xs \<Longrightarrow> i < length xs \<Longrightarrow> Array_indexOf xs (xs ! i) = int i"
proof (induction xs arbitrary: i)
  case Nil
  then show ?case by simp
next
  case (Cons a xs)
  show ?case
  proof (cases i)
    case 0
    then show ?thesis by simp
  next
    case (Suc j)
    with Cons.prems have j: "j < length xs" and d: "distinct xs" and na: "a \<noteq> xs ! j"
      by auto
    from Cons.IH[OF d j] Suc na show ?thesis by (simp add: Let_def)
  qed
qed

lemma key_order_kept:
  assumes "distinct ks" and "filter (\<lambda>k. k \<in> set ks) P = ks"
  shows "\<not> key_order_broken P ks"
  using assms by (simp add: key_order_broken_def Array_some_iff Array_includes_def indexOf_nth)

lemma filter_split_new:
  assumes P: "P = P1 @ k # P2" and d: "distinct P" and can: "filter (\<lambda>x. x \<in> set ks) P = ks"
    and new: "k \<notin> set ks"
  shows "filter (\<lambda>x. x \<in> set (ks @ [k])) P = filter (\<lambda>x. x \<in> set ks) P1 @ k # filter (\<lambda>x. x \<in> set ks) P2"
    and "ks = filter (\<lambda>x. x \<in> set ks) P1 @ filter (\<lambda>x. x \<in> set ks) P2"
proof -
  from P d have k1: "k \<notin> set P1" and k2: "k \<notin> set P2" by auto
  have f1: "filter (\<lambda>x. x \<in> set (ks @ [k])) P1 = filter (\<lambda>x. x \<in> set ks) P1"
    using k1 by (intro filter_cong) auto
  have f2: "filter (\<lambda>x. x \<in> set (ks @ [k])) P2 = filter (\<lambda>x. x \<in> set ks) P2"
    using k2 by (intro filter_cong) auto
  show "filter (\<lambda>x. x \<in> set (ks @ [k])) P = filter (\<lambda>x. x \<in> set ks) P1 @ k # filter (\<lambda>x. x \<in> set ks) P2"
    unfolding P using f1 f2 by simp
  show "ks = filter (\<lambda>x. x \<in> set ks) P1 @ filter (\<lambda>x. x \<in> set ks) P2"
    using can new unfolding P by simp
qed

lemma key_order_new_key:
  assumes P: "P = P1 @ k # P2" and d: "distinct P" and can: "filter (\<lambda>x. x \<in> set ks) P = ks"
    and new: "k \<notin> set ks"
  shows "key_order_broken P (ks @ [k]) \<longleftrightarrow> (\<exists>k'\<in>set ks. k' \<in> set P2)"
proof -
  let ?A = "filter (\<lambda>x. x \<in> set ks) P1" and ?B = "filter (\<lambda>x. x \<in> set ks) P2"
  have cur: "filter (\<lambda>x. x \<in> set (ks @ [k])) P = ?A @ k # ?B" and ks: "ks = ?A @ ?B"
    using filter_split_new[OF P d can new] by blast+
  from P d have k1: "k \<notin> set P1" by auto
  have dks: "distinct ks" using can d distinct_filter by metis
  show ?thesis
  proof (cases "?B = []")
    case True
    then have "filter (\<lambda>x. x \<in> set (ks @ [k])) P = ks @ [k]" using cur ks by simp
    moreover have "distinct (ks @ [k])" using dks new by simp
    ultimately have "\<not> key_order_broken P (ks @ [k])" by (rule key_order_kept[rotated])
    moreover have "\<not> (\<exists>k'\<in>set ks. k' \<in> set P2)"
      using True by (auto simp: filter_empty_conv)
    ultimately show ?thesis by simp
  next
    case False
    then have ex: "\<exists>k'\<in>set ks. k' \<in> set P2" by (auto simp: filter_empty_conv)
    have "Array_indexOf (?A @ k # ?B) k = int (length ?A)"
      using k1 by (simp add: indexOf_append)
    moreover have "length ?A < length ks" using False ks
      by (metis length_append length_greater_0_conv less_add_same_cancel1)
    ultimately have "int (length ks) > Array_indexOf (filter (\<lambda>x. x \<in> set (ks @ [k])) P) ((ks @ [k]) ! length ks)"
      using cur by simp
    then have "key_order_broken P (ks @ [k])"
      unfolding key_order_broken_def Array_some_iff Array_includes_def
      by (intro exI[of _ "length ks"]) simp
    with ex show ?thesis by simp
  qed
qed

lemma key_order_new_key_kept:
  assumes P: "P = P1 @ k # P2" and d: "distinct P" and can: "filter (\<lambda>x. x \<in> set ks) P = ks"
    and new: "k \<notin> set ks" and ok: "\<not> key_order_broken P (ks @ [k])"
  shows "filter (\<lambda>x. x \<in> set (ks @ [k])) P = ks @ [k]"
proof -
  have "\<not> (\<exists>k'\<in>set ks. k' \<in> set P2)" using key_order_new_key[OF P d can new] ok by simp
  then have "filter (\<lambda>x. x \<in> set ks) P2 = []" by (auto simp: filter_empty_conv)
  then show ?thesis using filter_split_new[OF P d can new] by simp
qed

lemma indexOf_after:
  assumes P: "P = P1 @ k # P2" and d: "distinct P" and k': "k' \<in> set P" "k' \<noteq> k"
  shows "k' \<in> set P2 \<longleftrightarrow> Array_indexOf P k < Array_indexOf P k'"
proof -
  from P d have k1: "k \<notin> set P1" and disj: "set P1 \<inter> set P2 = {}" by auto
  have ik: "Array_indexOf P k = int (length P1)" unfolding P using k1 by (simp add: indexOf_append)
  show ?thesis
  proof (cases "k' \<in> set P1")
    case True
    then have "Array_indexOf P k' = Array_indexOf P1 k'" unfolding P by (simp add: indexOf_append)
    with indexOf_present[OF True] ik True disj show ?thesis by auto
  next
    case False
    with k' P have in2: "k' \<in> set P2" by auto
    then have "Array_indexOf P k' = int (length P1) + Array_indexOf (k # P2) k'"
      unfolding P using False by (simp add: indexOf_append)
    moreover have "Array_indexOf (k # P2) k' > 0"
      using indexOf_present[OF in2] k' by (simp add: Let_def)
    ultimately show ?thesis using ik in2 by simp
  qed
qed

subsection \<open>The order test on \<open>positions\<close>\<close>

lemma distinct_positions: "distinct positions"
  by (simp add: positions_def)

lemma key_of_positions: "key_of c \<in> set positions"
  by (cases c) (simp_all add: positions_def)

lemma validPosition_eq:
  "validPosition this h =
     (if key_order_broken positions (map fst (selectors (objs h this)))
      then Inl OrderViolationError else Inr ())"
  by (simp add: validPosition_def key_order_broken_def Map_keys_def Let_def)

lemma Map_set_new: "k \<notin> set (map fst m) \<Longrightarrow> Map_set m k v = m @ [(k, v)]"
  by (induction m) auto

lemma Map_set_keys:
  "map fst (Map_set m k v) = (if k \<in> set (map fst m) then map fst m else map fst m @ [k])"
  by (induction m) auto

lemma element_set_part: "element v = set_part ''element'' v"
  by (intro ext) (simp only: element_def set_part_def)

lemma id_set_part: "id_sel v = set_part ''id'' (''#'' @ v)"
  by (intro ext) (simp only: id_sel_def set_part_def)

lemma pseudoElement_set_part: "pseudoElement v = set_part ''pseudoElement'' (''::'' @ v)"
  by (intro ext) (simp only: pseudoElement_def set_part_def)

lemma class_push_part: "class_sel v = push_part ''class'' (''.'' @ v)"
  by (intro ext) (simp only: class_sel_def push_part_def)

lemma attr_push_part: "attr v = push_part ''attr'' (''['' @ v @ '']'')"
  by (intro ext) (simp only: attr_def push_part_def)

lemma pseudoClass_push_part: "pseudoClass v = push_part ''pseudoClass'' ('':'' @ v)"
  by (intro ext) (simp only: pseudoClass_def push_part_def)

lemma apply_call_shape:
  "apply_call c this h =
     (if is_single (key_of c) then set_part (key_of c) (fragment c) this h
      else push_part (key_of c) (fragment c) this h)"
  by (cases c)
     (simp_all add: is_single_def element_set_part id_set_part pseudoElement_set_part
        class_push_part attr_push_part pseudoClass_push_part)

lemma canonical_keys_idem:
  "filter (\<lambda>x. x \<in> set (filter (\<lambda>x. x \<in> K) P)) P = filter (\<lambda>x. x \<in> K) P"
  by (intro filter_cong) auto

lemma new_key_order:
  assumes k: "k \<in> set positions" and new: "k \<notin> K" and K: "K \<subseteq> set positions"
  shows "key_order_broken positions (filter (\<lambda>x. x \<in> K) positions @ [k])
           \<longleftrightarrow> (\<exists>k'\<in>K. canonical_index k < canonical_index k')"
    and "\<not> key_order_broken positions (filter (\<lambda>x. x \<in> K) positions @ [k])
           \<Longrightarrow> filter (\<lambda>x. x \<in> insert k K) positions = filter (\<lambda>x. x \<in> K) positions @ [k]"
proof -
  let ?ks = "filter (\<lambda>x. x \<in> K) positions"
  from k obtain P1 P2 where P: "positions = P1 @ k # P2" by (auto dest: split_list)
  have can: "filter (\<lambda>x. x \<in> set ?ks) positions = ?ks" by (rule canonical_keys_idem)
  have new': "k \<notin> set ?ks" using new by simp
  have sk: "set ?ks = K" using K by auto
  have "key_order_broken positions (?ks @ [k]) \<longleftrightarrow> (\<exists>k'\<in>K. k' \<in> set P2)"
    using key_order_new_key[OF P distinct_positions can new'] unfolding sk .
  also have "\<dots> \<longleftrightarrow> (\<exists>k'\<in>K. canonical_index k < canonical_index k')"
  proof -
    have "k' \<in> set P2 \<longleftrightarrow> canonical_index k < canonical_index k'" if "k' \<in> K" for k'
    proof -
      from that K new have "k' \<in> set positions" "k' \<noteq> k" by auto
      from indexOf_after[OF P distinct_positions this] show ?thesis
        by (simp add: canonical_index_def)
    qed
    then show ?thesis by blast
  qed
  finally show "key_order_broken positions (?ks @ [k])
           \<longleftrightarrow> (\<exists>k'\<in>K. canonical_index k < canonical_index k')" .
  assume "\<not> key_order_broken positions (?ks @ [k])"
  from key_order_new_key_kept[OF P distinct_positions can new' this]
  have "filter (\<lambda>x. x \<in> set (?ks @ [k])) positions = ?ks @ [k]" .
  moreover have "filter (\<lambda>x. x \<in> set (?ks @ [k])) positions = filter (\<lambda>x. x \<in> insert k K) positions"
    using sk by (intro filter_cong) auto
  ultimately show "filter (\<lambda>x. x \<in> insert k K) positions = ?ks @ [k]" by simp
qed

lemma frags_snoc:
  "frags k (cs @ [c]) = (if key_of c = k then frags k cs @ [fragment c] else frags k cs)"
  by (simp add: frags_def)

lemma frags_absent: "k \<notin> key_of ` set cs \<Longrightarrow> frags k cs = []"
  by (auto simp: frags_def filter_empty_conv)

lemma built_keys:
  "built B cs this h \<Longrightarrow>
     map fst (selectors (objs h this)) = filter (\<lambda>k. k \<in> key_of ` set cs) positions"
  by (simp add: built_def Map_keys_def)

lemma built_has:
  "built B cs this h \<Longrightarrow> Map_has (selectors (objs h this)) (key_of c) \<longleftrightarrow> key_of c \<in> key_of ` set cs"
  using key_of_positions[of c] by (simp add: Map_has_def built_keys)

lemma built_empty: "selectors (objs h this) = [] \<Longrightarrow> B \<le> nextArr h \<Longrightarrow> built B [] this h"
  by (simp add: built_def Map_keys_def)

lemma verdict_order_iff:
  "verdict cs c = Some OrderViolationError \<longleftrightarrow>
     key_of c \<notin> key_of ` set cs \<and>
     (\<exists>c'\<in>set cs. canonical_index (key_of c) < canonical_index (key_of c'))"
  by (simp add: verdict_def)

subsection \<open>What an adder returns and leaves behind, on any store\<close>

lemma set_part_cases:
  "set_part k s this h =
     (if Map_has (selectors (objs h this)) k then (Inl DuplicatePartError, h)
      else (if key_order_broken positions (map fst (selectors (objs h this)) @ [k])
            then Inl OrderViolationError else Inr this,
            h\<lparr>objs := (objs h)(this := (objs h this)\<lparr>selectors := selectors (objs h this) @ [(k, Str s)]\<rparr>)\<rparr>))"
  by (simp add: set_part_def validUniq_def validPosition_eq selectors_set_def Map_has_def
      Map_set_new Let_def)

lemma push_part_present:
  assumes "Map_get (selectors (objs h this)) k = Some (Arr r)"
  shows "push_part k s this h =
     (if key_order_broken positions (map fst (selectors (objs h this)))
      then Inl OrderViolationError else Inr this,
      h\<lparr>arrs := (arrs h)(r := arrs h r @ [s])\<rparr>)"
proof -
  from assms have "Map_has (selectors (objs h this)) k"
    by (auto simp: Map_get_def Map_has_def dest: map_of_SomeD intro: rev_image_eqI)
  then have "isSelectorHas k this h = h" by (simp add: isSelectorHas_def)
  with assms show ?thesis
    by (simp add: push_part_def validPosition_eq Array_push_def Let_def)
qed

lemma push_part_absent:
  assumes "\<not> Map_has (selectors (objs h this)) k"
  shows "push_part k s this h =
     (if key_order_broken positions (map fst (selectors (objs h this)) @ [k])
      then Inl OrderViolationError else Inr this,
      h\<lparr>objs := (objs h)(this := (objs h this)\<lparr>selectors := selectors (objs h this) @ [(k, Arr (nextArr h))]\<rparr>),
        arrs := (arrs h)(nextArr h := [s]), nextArr := Suc (nextArr h)\<rparr>)"
proof -
  from assms have nk: "k \<notin> set (map fst (selectors (objs h this)))" by (simp add: Map_has_def)
  then have mo: "map_of (selectors (objs h this)) k = None" by (simp add: map_of_eq_None_iff)
  show ?thesis
    using assms nk mo
    by (simp add: push_part_def isSelectorHas_def new_Array_def selectors_set_def Map_set_new
        Map_get_def validPosition_eq Array_push_def Let_def map_add_def)
qed

subsection \<open>One accepted call keeps the object in step with its history\<close>

lemma built_distinct_keys: "built B cs this h \<Longrightarrow> distinct (map fst (selectors (objs h this)))"
  by (simp add: built_keys distinct_positions)

lemma built_key_in: "built B cs this h \<Longrightarrow> (k, v) \<in> set (selectors (objs h this)) \<Longrightarrow> k \<in> key_of ` set cs"
proof -
  assume b: "built B cs this h" and kv: "(k, v) \<in> set (selectors (objs h this))"
  from kv have "k \<in> set (map fst (selectors (objs h this)))" by force
  with built_keys[OF b] show ?thesis by simp
qed

lemma built_Str:
  "built B cs this h \<Longrightarrow> (k, Str s) \<in> set (selectors (objs h this)) \<Longrightarrow>
     is_single k \<and> frags k cs = [s]"
  by (auto simp: built_def)

lemma built_Arr:
  "built B cs this h \<Longrightarrow> (k, Arr r) \<in> set (selectors (objs h this)) \<Longrightarrow>
     \<not> is_single k \<and> B \<le> r \<and> r < nextArr h \<and> arrs h r = frags k cs"
  by (auto simp: built_def)

lemma built_Arr_inj:
  "built B cs this h \<Longrightarrow> (k, Arr r) \<in> set (selectors (objs h this)) \<Longrightarrow>
     (k', Arr r) \<in> set (selectors (objs h this)) \<Longrightarrow> k = k'"
  unfolding built_def by blast

lemma builtI:
  assumes "B \<le> nextArr h"
    and "map fst (selectors (objs h this)) = filter (\<lambda>k. k \<in> key_of ` set cs) positions"
    and "\<And>k s. (k, Str s) \<in> set (selectors (objs h this)) \<Longrightarrow> is_single k \<and> frags k cs = [s]"
    and "\<And>k r. (k, Arr r) \<in> set (selectors (objs h this)) \<Longrightarrow>
           \<not> is_single k \<and> B \<le> r \<and> r < nextArr h \<and> arrs h r = frags k cs"
    and "\<And>k k' r. (k, Arr r) \<in> set (selectors (objs h this)) \<Longrightarrow>
           (k', Arr r) \<in> set (selectors (objs h this)) \<Longrightarrow> k = k'"
  shows "built B cs this h"
  unfolding built_def Map_keys_def using assms by (auto split: jsval.splits)

lemma verdict_exists_iff:
  "(\<exists>k'\<in>key_of ` set cs. canonical_index k < canonical_index k') \<longleftrightarrow>
   (\<exists>c'\<in>set cs. canonical_index k < canonical_index (key_of c'))"
  by auto

lemma set_part_built:
  assumes b: "built B cs this h" and sv: "is_single (key_of c)"
  shows "fst (set_part (key_of c) (fragment c) this h) =
           (case verdict cs c of None \<Rightarrow> Inr this | Some e \<Rightarrow> Inl e)"
    and "verdict cs c = None \<Longrightarrow> built B (cs @ [c]) this (snd (set_part (key_of c) (fragment c) this h))"
    and "touches_only B this h (snd (set_part (key_of c) (fragment c) this h))"
proof -
  let ?k = "key_of c" and ?s = "fragment c" and ?m = "selectors (objs h this)"
  let ?K = "key_of ` set cs"
  let ?h1 = "h\<lparr>objs := (objs h)(this := (objs h this)\<lparr>selectors := ?m @ [(?k, Str ?s)]\<rparr>)\<rparr>"
  have has: "Map_has ?m ?k \<longleftrightarrow> ?k \<in> ?K" by (rule built_has[OF b])
  have keys: "map fst ?m = filter (\<lambda>k. k \<in> ?K) positions" by (rule built_keys[OF b])
  have Ksub: "?K \<subseteq> set positions" using key_of_positions by auto
  show "touches_only B this h (snd (set_part ?k ?s this h))"
    by (simp add: set_part_cases touches_only_def)
  show "fst (set_part ?k ?s this h) = (case verdict cs c of None \<Rightarrow> Inr this | Some e \<Rightarrow> Inl e)"
  proof (cases "?k \<in> ?K")
    case True
    then show ?thesis using has sv by (simp add: set_part_cases verdict_def)
  next
    case False
    from new_key_order(1)[OF key_of_positions False Ksub] False has show ?thesis
      by (simp add: set_part_cases verdict_def keys verdict_exists_iff)
  qed
  assume v: "verdict cs c = None"
  then have new: "?k \<notin> ?K" using sv by (auto simp: verdict_def split: if_splits)
  from v new have "\<not> (\<exists>k'\<in>?K. canonical_index ?k < canonical_index k')"
    by (auto simp: verdict_def split: if_splits)
  then have nb: "\<not> key_order_broken positions (filter (\<lambda>x. x \<in> ?K) positions @ [?k])"
    using new_key_order(1)[OF key_of_positions new Ksub] by simp
  have res: "snd (set_part ?k ?s this h) = ?h1"
    using new has by (simp add: set_part_cases)
  have "built B (cs @ [c]) this ?h1"
  proof (rule builtI)
    show "B \<le> nextArr ?h1" using b by (simp add: built_def)
    show "map fst (selectors (objs ?h1 this)) = filter (\<lambda>k. k \<in> key_of ` set (cs @ [c])) positions"
      using new_key_order(2)[OF key_of_positions new Ksub nb] keys by simp
  next
    fix k s assume "(k, Str s) \<in> set (selectors (objs ?h1 this))"
    then consider "(k, Str s) \<in> set ?m" | "k = ?k" "s = ?s" by auto
    then show "is_single k \<and> frags k (cs @ [c]) = [s]"
    proof cases
      case 1
      from built_key_in[OF b 1] new have "k \<noteq> ?k" by blast
      with built_Str[OF b 1] show ?thesis by (simp add: frags_snoc)
    next
      case 2
      then show ?thesis using sv new by (simp add: frags_snoc frags_absent)
    qed
  next
    fix k r assume "(k, Arr r) \<in> set (selectors (objs ?h1 this))"
    then have 1: "(k, Arr r) \<in> set ?m" by auto
    from built_key_in[OF b 1] new have "k \<noteq> ?k" by blast
    with built_Arr[OF b 1]
    show "\<not> is_single k \<and> B \<le> r \<and> r < nextArr ?h1 \<and> arrs ?h1 r = frags k (cs @ [c])"
      by (simp add: frags_snoc)
  next
    fix k k' r
    assume "(k, Arr r) \<in> set (selectors (objs ?h1 this))" "(k', Arr r) \<in> set (selectors (objs ?h1 this))"
    then have "(k, Arr r) \<in> set ?m" "(k', Arr r) \<in> set ?m" by auto
    then show "k = k'" by (rule built_Arr_inj[OF b])
  qed
  with res show "built B (cs @ [c]) this (snd (set_part ?k ?s this h))" by simp
qed

lemma built_same_key:
  assumes b: "built B cs this h"
    and 1: "(k, v) \<in> set (selectors (objs h this))" and 2: "(k, v') \<in> set (selectors (objs h this))"
  shows "v = v'"
  using built_distinct_keys[OF b] 1 2 by (rule eq_key_imp_eq_value)

lemma push_part_built:
  assumes b: "built B cs this h" and nsv: "\<not> is_single (key_of c)"
  shows "fst (push_part (key_of c) (fragment c) this h) =
           (case verdict cs c of None \<Rightarrow> Inr this | Some e \<Rightarrow> Inl e)"
    and "verdict cs c = None \<Longrightarrow> built B (cs @ [c]) this (snd (push_part (key_of c) (fragment c) this h))"
    and "touches_only B this h (snd (push_part (key_of c) (fragment c) this h))"
proof -
  let ?k = "key_of c" and ?s = "fragment c" and ?m = "selectors (objs h this)"
  let ?K = "key_of ` set cs"
  have has: "Map_has ?m ?k \<longleftrightarrow> ?k \<in> ?K" by (rule built_has[OF b])
  have keys: "map fst ?m = filter (\<lambda>k. k \<in> ?K) positions" by (rule built_keys[OF b])
  have Ksub: "?K \<subseteq> set positions" using key_of_positions by auto
  have B: "B \<le> nextArr h" using b by (simp add: built_def)
  show "fst (push_part ?k ?s this h) = (case verdict cs c of None \<Rightarrow> Inr this | Some e \<Rightarrow> Inl e)"
   and "verdict cs c = None \<Longrightarrow> built B (cs @ [c]) this (snd (push_part ?k ?s this h))"
   and "touches_only B this h (snd (push_part ?k ?s this h))"
  proof (atomize (full), cases "?k \<in> ?K")
    case True
    then have "?k \<in> set (map fst ?m)" using keys key_of_positions by simp
    then obtain v where kv: "(?k, v) \<in> set ?m" by force
    then obtain r where v: "v = Arr r"
      using built_Str[OF b, of ?k] nsv by (cases v) auto
    from kv v have kr: "(?k, Arr r) \<in> set ?m" by simp
    have get: "Map_get ?m ?k = Some (Arr r)"
      unfolding Map_get_def using built_distinct_keys[OF b] kr by (rule map_of_is_SomeI)
    let ?h2 = "h\<lparr>arrs := (arrs h)(r := arrs h r @ [?s])\<rparr>"
    have nb: "\<not> key_order_broken positions (map fst ?m)"
      using built_distinct_keys[OF b] by (rule key_order_kept) (simp only: keys canonical_keys_idem)
    have res: "push_part ?k ?s this h = (Inr this, ?h2)"
      using push_part_present[OF get] nb by simp
    have ver: "verdict cs c = None" using True nsv by (simp add: verdict_def)
    have Keq: "key_of ` set (cs @ [c]) = ?K" using True by auto
    have "built B (cs @ [c]) this ?h2"
    proof (rule builtI)
      show "B \<le> nextArr ?h2" using B by simp
      show "map fst (selectors (objs ?h2 this)) = filter (\<lambda>k. k \<in> key_of ` set (cs @ [c])) positions"
        unfolding Keq using keys by simp
    next
      fix k s assume "(k, Str s) \<in> set (selectors (objs ?h2 this))"
      then have 1: "(k, Str s) \<in> set ?m" by simp
      from built_Str[OF b 1] nsv have "k \<noteq> ?k" by auto
      with built_Str[OF b 1] show "is_single k \<and> frags k (cs @ [c]) = [s]"
        by (simp add: frags_snoc)
    next
      fix k r' assume "(k, Arr r') \<in> set (selectors (objs ?h2 this))"
      then have 1: "(k, Arr r') \<in> set ?m" by simp
      show "\<not> is_single k \<and> B \<le> r' \<and> r' < nextArr ?h2 \<and> arrs ?h2 r' = frags k (cs @ [c])"
      proof (cases "r' = r")
        case True
        with 1 kr built_Arr_inj[OF b] have "k = ?k" by blast
        with built_Arr[OF b 1] True show ?thesis by (simp add: frags_snoc)
      next
        case False
        with built_same_key[OF b 1] kr have "k \<noteq> ?k" by auto
        with built_Arr[OF b 1] False show ?thesis by (simp add: frags_snoc)
      qed
    next
      fix k k' r'
      assume "(k, Arr r') \<in> set (selectors (objs ?h2 this))" "(k', Arr r') \<in> set (selectors (objs ?h2 this))"
      then have "(k, Arr r') \<in> set ?m" "(k', Arr r') \<in> set ?m" by auto
      then show "k = k'" by (rule built_Arr_inj[OF b])
    qed
    moreover have "touches_only B this h ?h2"
      using built_Arr[OF b kr] by (auto simp: touches_only_def)
    ultimately show "fst (push_part ?k ?s this h) = (case verdict cs c of None \<Rightarrow> Inr this | Some e \<Rightarrow> Inl e)
      \<and> (verdict cs c = None \<longrightarrow> built B (cs @ [c]) this (snd (push_part ?k ?s this h)))
      \<and> touches_only B this h (snd (push_part ?k ?s this h))"
      using res ver by simp
  next
    case False
    then have nh: "\<not> Map_has ?m ?k" using has by simp
    let ?r = "nextArr h"
    let ?h2 = "h\<lparr>objs := (objs h)(this := (objs h this)\<lparr>selectors := ?m @ [(?k, Arr ?r)]\<rparr>),
                 arrs := (arrs h)(?r := [?s]), nextArr := Suc ?r\<rparr>"
    have br: "key_order_broken positions (map fst ?m @ [?k])
                \<longleftrightarrow> (\<exists>c'\<in>set cs. canonical_index ?k < canonical_index (key_of c'))"
      using new_key_order(1)[OF key_of_positions False Ksub] by (simp add: keys verdict_exists_iff)
    have res: "push_part ?k ?s this h =
        (if \<exists>c'\<in>set cs. canonical_index ?k < canonical_index (key_of c')
         then Inl OrderViolationError else Inr this, ?h2)"
      using push_part_absent[OF nh, of ?s] br by simp
    have fst_ok: "fst (push_part ?k ?s this h) = (case verdict cs c of None \<Rightarrow> Inr this | Some e \<Rightarrow> Inl e)"
      using False by (simp add: res verdict_def)
    have touch: "touches_only B this h ?h2"
      using B by (auto simp: touches_only_def)
    have blt: "built B (cs @ [c]) this ?h2" if v: "verdict cs c = None"
    proof (rule builtI)
      from v False have "\<not> (\<exists>k'\<in>?K. canonical_index ?k < canonical_index k')"
        by (auto simp: verdict_def split: if_splits)
      then have nb: "\<not> key_order_broken positions (filter (\<lambda>x. x \<in> ?K) positions @ [?k])"
        using new_key_order(1)[OF key_of_positions False Ksub] by simp
      show "B \<le> nextArr ?h2" using B by simp
      show "map fst (selectors (objs ?h2 this)) = filter (\<lambda>k. k \<in> key_of ` set (cs @ [c])) positions"
        using new_key_order(2)[OF key_of_positions False Ksub nb] keys by simp
    next
      fix k s assume "(k, Str s) \<in> set (selectors (objs ?h2 this))"
      then have 1: "(k, Str s) \<in> set ?m" by simp
      from built_Str[OF b 1] nsv have "k \<noteq> ?k" by auto
      with built_Str[OF b 1] show "is_single k \<and> frags k (cs @ [c]) = [s]"
        by (simp add: frags_snoc)
    next
      fix k r' assume "(k, Arr r') \<in> set (selectors (objs ?h2 this))"
      then consider "(k, Arr r') \<in> set ?m" | "k = ?k" "r' = ?r" by auto
      then show "\<not> is_single k \<and> B \<le> r' \<and> r' < nextArr ?h2 \<and> arrs ?h2 r' = frags k (cs @ [c])"
      proof cases
        case 1
        from built_key_in[OF b 1] False have "k \<noteq> ?k" by blast
        with built_Arr[OF b 1] show ?thesis by (simp add: frags_snoc)
      next
        case 2
        then show ?thesis using nsv B False by (simp add: frags_snoc frags_absent)
      qed
    next
      fix k k' r'
      assume a: "(k, Arr r') \<in> set (selectors (objs ?h2 this))" "(k', Arr r') \<in> set (selectors (objs ?h2 this))"
      have old: "r' < ?r" if "(k'', Arr r') \<in> set ?m" for k''
        using built_Arr[OF b that] by simp
      from a consider "(k, Arr r') \<in> set ?m" "(k', Arr r') \<in> set ?m" | "k = ?k" "k' = ?k"
        using old by auto
      then show "k = k'" using built_Arr_inj[OF b] by cases auto
    qed
    show "fst (push_part ?k ?s this h) = (case verdict cs c of None \<Rightarrow> Inr this | Some e \<Rightarrow> Inl e)
      \<and> (verdict cs c = None \<longrightarrow> built B (cs @ [c]) this (snd (push_part ?k ?s this h)))
      \<and> touches_only B this h (snd (push_part ?k ?s this h))"
      using fst_ok touch blt by (simp add: res)
  qed
qed

subsection \<open>Chains of calls and rendering\<close>

lemma apply_call_built:
  assumes b: "built B cs this h"
  shows "fst (apply_call c this h) = (case verdict cs c of None \<Rightarrow> Inr this | Some e \<Rightarrow> Inl e)"
    and "verdict cs c = None \<Longrightarrow> built B (cs @ [c]) this (snd (apply_call c this h))"
    and "touches_only B this h (snd (apply_call c this h))"
  using set_part_built[OF b, of c] push_part_built[OF b, of c]
  by (simp_all add: apply_call_shape)

lemma touches_only_refl: "touches_only B this h h"
  by (simp add: touches_only_def)

lemma touches_only_trans:
  "touches_only B this h h1 \<Longrightarrow> touches_only B this h1 h2 \<Longrightarrow> touches_only B this h h2"
  by (auto simp: touches_only_def)

lemma chain_built:
  assumes "built B pre this h"
  shows "fst (chain cs this h) = (case first_error pre cs of None \<Rightarrow> Inr this | Some e \<Rightarrow> Inl e)
       \<and> (first_error pre cs = None \<longrightarrow> built B (pre @ cs) this (snd (chain cs this h)))
       \<and> touches_only B this h (snd (chain cs this h))"
  using assms
proof (induction cs arbitrary: pre h)
  case Nil
  then show ?case by (simp add: touches_only_refl)
next
  case (Cons c cs)
  obtain res h1 where ac: "apply_call c this h = (res, h1)" by (cases "apply_call c this h")
  note step = apply_call_built[OF Cons.prems, of c, unfolded ac fst_conv snd_conv]
  show ?case
  proof (cases "verdict pre c")
    case None
    with step have res: "res = Inr this" and b1: "built B (pre @ [c]) this h1" by simp_all
    from Cons.IH[OF b1] step(3) show ?thesis
      using None by (auto simp: ac res intro: touches_only_trans)
  next
    case (Some e)
    with step have "res = Inl e" by simp
    with step(3) Some show ?thesis by (simp add: ac)
  qed
qed

lemma concat_concat_map: "concat (concat xss) = concat (map concat xss)"
  by (induction xss) auto

lemma concat_map_filter_empty:
  "(\<And>x. x \<in> set xs \<Longrightarrow> \<not> P x \<Longrightarrow> f x = []) \<Longrightarrow> concat (map f (filter P xs)) = concat (map f xs)"
  by (induction xs) auto

lemma built_flat:
  assumes b: "built B cs this h"
  shows "Array_flat h (Map_values (selectors (objs h this)))
           = concat (map (\<lambda>k. frags k cs) (map fst (selectors (objs h this))))"
proof -
  have "(case snd p of Str s \<Rightarrow> [s] | Arr r \<Rightarrow> arrs h r) = frags (fst p) cs"
    if "p \<in> set (selectors (objs h this))" for p
  proof (cases p)
    case (Pair k v)
    with that built_Str[OF b, of k] built_Arr[OF b, of k] show ?thesis
      by (cases v) auto
  qed
  then show ?thesis
    by (simp add: Array_flat_def Map_values_def comp_def cong: map_cong)
qed

lemma stringify_built:
  assumes b: "built B cs this h" and e: "arrCombine (objs h this) = []"
  shows "stringify this h = canonical_render cs"
proof -
  have "stringify this h = concat (concat (map (\<lambda>k. frags k cs) (filter (\<lambda>k. k \<in> key_of ` set cs) positions)))"
    using e by (simp add: stringify_def Array_join_def built_flat[OF b] built_keys[OF b])
  also have "\<dots> = concat (map (\<lambda>k. concat (frags k cs)) (filter (\<lambda>k. k \<in> key_of ` set cs) positions))"
    by (simp add: concat_concat_map comp_def)
  also have "\<dots> = concat (map (\<lambda>k. concat (frags k cs)) positions)"
    by (rule concat_map_filter_empty) (simp add: frags_absent)
  finally show ?thesis by (simp add: canonical_render_def)
qed

subsection \<open>Combination\<close>

lemma Array_flat_append: "Array_flat h (xs @ ys) = Array_flat h xs @ Array_flat h ys"
  by (simp add: Array_flat_def)

lemma Array_flat_arrs: "arrs h' = arrs h \<Longrightarrow> Array_flat h' vs = Array_flat h vs"
  by (induction vs) (auto simp: Array_flat_def split: jsval.splits)

lemma stringify_frame:
  "arrs h' = arrs h \<Longrightarrow> objs h' a = objs h a \<Longrightarrow> stringify a h' = stringify a h"
  by (simp add: stringify_def Array_flat_arrs[of h' h])

text \<open>The facade allocates the receiver, so \<open>combine\<close> runs on an object that is neither
  of its arguments.\<close>

lemma cssSelectorBuilder_combine_eq:
  assumes "a < nextObj h" and "b < nextObj h"
  shows "cssSelectorBuilder_combine a tok b h =
     (nextObj h,
      h\<lparr>objs := (objs h)(nextObj h :=
              \<lparr>selectors = [],
               arrCombine = Map_values (selectors (objs h a)) @ [Str ('' '' @ tok @ '' '')]
                            @ Map_values (selectors (objs h b)) @ arrCombine (objs h b)\<rparr>),
        nextObj := Suc (nextObj h)\<rparr>)"
  using assms by (simp add: cssSelectorBuilder_combine_def new_SelectorBuild_def combine_def)

subsection \<open>One call on any store\<close>

lemma Map_has_get: "Map_has m k \<longleftrightarrow> (\<exists>v. Map_get m k = Some v)"
proof -
  have "k \<in> fst ` set m \<longleftrightarrow> map_of m k \<noteq> None" by (simp add: map_of_eq_None_iff)
  then show ?thesis by (simp add: Map_has_def Map_get_def)
qed

lemma push_part_Str:
  assumes "Map_get (selectors (objs h this)) k = Some (Str x)"
  shows "push_part k s this h = (Inl TypeError, h)"
proof -
  from assms have "Map_has (selectors (objs h this)) k" by (auto simp: Map_has_get)
  then have "isSelectorHas k this h = h" by (simp add: isSelectorHas_def)
  with assms show ?thesis by (simp add: push_part_def Let_def)
qed

lemma push_part_forms:
  obtains (absent) "\<not> Map_has (selectors (objs h this)) k"
  | (array) r where "Map_get (selectors (objs h this)) k = Some (Arr r)"
  | (string) x where "Map_get (selectors (objs h this)) k = Some (Str x)"
proof (cases "Map_get (selectors (objs h this)) k")
  case None
  then show ?thesis using absent by (simp add: Map_has_get)
next
  case (Some v)
  then show ?thesis using array string by (cases v) auto
qed

lemma set_part_Dup_unchanged:
  "fst (set_part k s this h) = Inl DuplicatePartError \<Longrightarrow> snd (set_part k s this h) = h"
  by (simp add: set_part_cases split: if_splits)

lemma push_part_not_Dup: "fst (push_part k s this h) \<noteq> Inl DuplicatePartError"
  by (cases rule: push_part_forms[of h this k])
     (simp_all add: push_part_absent push_part_present push_part_Str)

lemma set_part_Order_changed:
  "fst (set_part k s this h) = Inl OrderViolationError \<Longrightarrow>
     snd (set_part k s this h) \<noteq> h \<and> Map_has (selectors (objs (snd (set_part k s this h)) this)) k"
proof -
  assume a: "fst (set_part k s this h) = Inl OrderViolationError"
  let ?h1 = "h\<lparr>objs := (objs h)(this := (objs h this)\<lparr>selectors := selectors (objs h this) @ [(k, Str s)]\<rparr>)\<rparr>"
  from a have res: "snd (set_part k s this h) = ?h1"
    by (simp add: set_part_cases split: if_splits)
  have "selectors (objs ?h1 this) \<noteq> selectors (objs h this)" by simp
  then have "?h1 \<noteq> h" by metis
  then show ?thesis unfolding res by (simp add: Map_has_def)
qed

lemma push_part_Order_changed:
  "fst (push_part k s this h) = Inl OrderViolationError \<Longrightarrow>
     snd (push_part k s this h) \<noteq> h \<and> Map_has (selectors (objs (snd (push_part k s this h)) this)) k"
proof (cases rule: push_part_forms[of h this k])
  case absent
  have "nextArr (snd (push_part k s this h)) \<noteq> nextArr h"
    by (simp add: push_part_absent[OF absent])
  then have "snd (push_part k s this h) \<noteq> h" by metis
  then show ?thesis by (simp add: push_part_absent[OF absent] Map_has_def)
next
  case (array r)
  have "arrs (snd (push_part k s this h)) r \<noteq> arrs h r"
    by (simp add: push_part_present[OF array])
  then have "snd (push_part k s this h) \<noteq> h" by metis
  moreover have "Map_has (selectors (objs h this)) k" using array by (auto simp: Map_has_get)
  ultimately show ?thesis by (simp add: push_part_present[OF array])
next
  case (string x)
  assume "fst (push_part k s this h) = Inl OrderViolationError"
  then show ?thesis by (simp add: push_part_Str[OF string])
qed

lemma set_part_frame:
  "nextObj (snd (set_part k s this h)) = nextObj h"
  "arrCombine (objs (snd (set_part k s this h)) b) = arrCombine (objs h b)"
  "b \<noteq> this \<Longrightarrow> objs (snd (set_part k s this h)) b = objs h b"
  "Map_has (selectors (objs h b)) k' \<Longrightarrow> Map_has (selectors (objs (snd (set_part k s this h)) b)) k'"
  "fst (set_part k s this h) \<noteq> Inl DuplicatePartError \<Longrightarrow> Map_has (selectors (objs (snd (set_part k s this h)) this)) k"
  by (auto simp: set_part_cases Map_has_def)

lemma push_part_frame:
  "nextObj (snd (push_part k s this h)) = nextObj h"
  "arrCombine (objs (snd (push_part k s this h)) b) = arrCombine (objs h b)"
  "b \<noteq> this \<Longrightarrow> objs (snd (push_part k s this h)) b = objs h b"
  "Map_has (selectors (objs h b)) k' \<Longrightarrow> Map_has (selectors (objs (snd (push_part k s this h)) b)) k'"
  by (cases rule: push_part_forms[of h this k];
      auto simp: push_part_absent push_part_present push_part_Str Map_has_def)+

lemma apply_call_frame:
  "nextObj (snd (apply_call c this h)) = nextObj h"
  "arrCombine (objs (snd (apply_call c this h)) b) = arrCombine (objs h b)"
  "b \<noteq> this \<Longrightarrow> objs (snd (apply_call c this h)) b = objs h b"
  "Map_has (selectors (objs h b)) k' \<Longrightarrow> Map_has (selectors (objs (snd (apply_call c this h)) b)) k'"
  by (simp_all add: apply_call_shape set_part_frame push_part_frame)

lemma apply_all_has:
  "Map_has (selectors (objs h b)) k \<Longrightarrow> Map_has (selectors (objs (apply_all cs this h) b)) k"
  by (induction cs arbitrary: h) (simp_all add: apply_call_frame)

lemma set_part_again:
  "fst (set_part k s' this (apply_all cs this (snd (set_part k s this h)))) = Inl DuplicatePartError"
proof -
  have "Map_has (selectors (objs (snd (set_part k s this h)) this)) k"
    by (simp add: set_part_cases Map_has_def)
  then have "Map_has (selectors (objs (apply_all cs this (snd (set_part k s this h))) this)) k"
    by (rule apply_all_has)
  then show ?thesis by (simp add: set_part_cases)
qed

subsection \<open>A new key behind a later one, on any store\<close>

lemma key_order_broken_newI:
  assumes P: "P = P1 @ k # P2" and d: "distinct P" and new: "k \<notin> set ks"
    and k': "k' \<in> set ks" "k' \<in> set P2"
  shows "key_order_broken P (ks @ [k])"
proof -
  let ?A = "filter (\<lambda>x. x \<in> set ks) P1"
  from P d have k1: "k \<notin> set P1" and k2: "k \<notin> set P2" and k'1: "k' \<notin> set P1"
    and d1: "distinct P1" using k' by auto
  have f1: "filter (\<lambda>x. x \<in> set (ks @ [k])) P1 = ?A"
    using k1 by (intro filter_cong) auto
  have cur: "filter (\<lambda>x. x \<in> set (ks @ [k])) P = ?A @ k # filter (\<lambda>x. x \<in> set (ks @ [k])) P2"
    unfolding P using f1 by simp
  have idx: "Array_indexOf (filter (\<lambda>x. x \<in> set (ks @ [k])) P) k = int (length ?A)"
    using k1 unfolding cur by (simp add: indexOf_append)
  have "set ?A \<subseteq> set ks - {k'}" using k'1 by auto
  then have "card (set ?A) \<le> card (set ks - {k'})" by (intro card_mono) auto
  also have "\<dots> < card (set ks)" using k'(1) by (intro card_Diff1_less) auto
  also have "\<dots> \<le> length ks" by (rule card_length)
  finally have "card (set ?A) < length ks" .
  moreover have "card (set ?A) = length ?A" using d1 by (intro distinct_card) simp
  ultimately have "length ?A < length ks" by (simp only:)
  with idx have "int (length ks) > Array_indexOf (filter (\<lambda>x. x \<in> set (ks @ [k])) P) ((ks @ [k]) ! length ks)"
    by simp
  then show ?thesis
    unfolding key_order_broken_def Array_some_iff Array_includes_def
    by (intro exI[of _ "length ks"]) simp
qed

lemma class_after_attr:
  assumes "Map_has (selectors (objs h a)) ''attr''" and "\<not> Map_has (selectors (objs h a)) ''class''"
  shows "fst (class_sel v a h) = Inl OrderViolationError"
proof -
  have "key_order_broken positions (map fst (selectors (objs h a)) @ [''class''])"
  proof (rule key_order_broken_newI)
    show "positions = [''element'', ''id''] @ ''class'' # [''attr'', ''pseudoClass'', ''pseudoElement'']"
      by (simp add: positions_def)
    show "distinct positions" by (rule distinct_positions)
    show "''class'' \<notin> set (map fst (selectors (objs h a)))" using assms(2) by (simp add: Map_has_def)
    show "''attr'' \<in> set (map fst (selectors (objs h a)))" using assms(1) by (simp add: Map_has_def)
    show "''attr'' \<in> set [''attr'', ''pseudoClass'', ''pseudoElement'']" by simp
  qed
  then show ?thesis using assms(2) by (simp add: class_push_part push_part_absent)
qed

lemma element_after_id:
  assumes "Map_has (selectors (objs h a)) ''id''" and "\<not> Map_has (selectors (objs h a)) ''element''"
  shows "fst (element v a h) = Inl OrderViolationError"
proof -
  have "key_order_broken positions (map fst (selectors (objs h a)) @ [''element''])"
  proof (rule key_order_broken_newI)
    show "positions = [] @ ''element'' # [''id'', ''class'', ''attr'', ''pseudoClass'', ''pseudoElement'']"
      by (simp add: positions_def)
    show "distinct positions" by (rule distinct_positions)
    show "''element'' \<notin> set (map fst (selectors (objs h a)))" using assms(2) by (simp add: Map_has_def)
    show "''id'' \<in> set (map fst (selectors (objs h a)))" using assms(1) by (simp add: Map_has_def)
    show "''id'' \<in> set [''id'', ''class'', ''attr'', ''pseudoClass'', ''pseudoElement'']" by simp
  qed
  then show ?thesis using assms(2) by (simp add: element_set_part set_part_cases)
qed

lemma element_when_present:
  "Map_has (selectors (objs h a)) ''element'' \<Longrightarrow> fst (element v a h) = Inl DuplicatePartError"
  by (simp add: element_set_part set_part_cases)

subsection \<open>What a call that raises the order error has stored\<close>

lemma Array_flat_agree:
  "(\<And>r. Arr r \<in> set vs \<Longrightarrow> arrs h' r = arrs h r) \<Longrightarrow> Array_flat h' vs = Array_flat h vs"
  by (induction vs) (auto simp: Array_flat_def split: jsval.splits)

lemma rejected_fragment_rendered:
  assumes b: "built B cs a h" and e: "arrCombine (objs h a) = []"
    and o: "fst (apply_call c a h) = Inl OrderViolationError"
  shows "stringify a (snd (apply_call c a h)) = stringify a h @ fragment c"
proof -
  let ?m = "selectors (objs h a)"
  from o apply_call_built(1)[OF b, of c] have v: "verdict cs c = Some OrderViolationError"
    by (cases "verdict cs c") auto
  then have new: "key_of c \<notin> key_of ` set cs" by (simp add: verdict_order_iff)
  then have nh: "\<not> Map_has ?m (key_of c)" using built_has[OF b] by simp
  show ?thesis
  proof (cases "is_single (key_of c)")
    case True
    let ?h' = "snd (set_part (key_of c) (fragment c) a h)"
    have "Array_flat ?h' (Map_values ?m) = Array_flat h (Map_values ?m)"
      by (rule Array_flat_arrs) (simp add: set_part_cases)
    moreover have "Map_values (selectors (objs ?h' a)) = Map_values ?m @ [Str (fragment c)]"
      using nh by (simp add: set_part_cases Map_values_def)
    moreover have "arrCombine (objs ?h' a) = []" using e by (simp add: set_part_frame)
    ultimately show ?thesis using True e
      by (simp add: apply_call_shape stringify_def Array_join_def Array_flat_append)
         (simp add: Array_flat_def)
  next
    case False
    let ?h' = "snd (push_part (key_of c) (fragment c) a h)"
    have old: "Array_flat ?h' (Map_values ?m) = Array_flat h (Map_values ?m)"
    proof (rule Array_flat_agree)
      fix r assume "Arr r \<in> set (Map_values ?m)"
      then obtain k where "(k, Arr r) \<in> set ?m" by (auto simp: Map_values_def)
      from built_Arr[OF b this] have "r < nextArr h" by simp
      then show "arrs ?h' r = arrs h r" by (simp add: push_part_absent[OF nh])
    qed
    have "Array_flat ?h' (Map_values (selectors (objs ?h' a))) = Array_flat ?h' (Map_values ?m) @ [fragment c]"
      by (simp add: push_part_absent[OF nh] Map_values_def Array_flat_def)
    with old have "Array_flat ?h' (Map_values (selectors (objs ?h' a))) = Array_flat h (Map_values ?m) @ [fragment c]"
      by simp
    moreover have "arrCombine (objs ?h' a) = []" using e by (simp add: push_part_frame)
    ultimately show ?thesis using False e
      by (simp add: apply_call_shape stringify_def Array_join_def)
  qed
qed

subsection \<open>Sequences of calls on a selector without parts\<close>

lemma verdict_sorted:
  assumes s: "sorted (map (canonical_index \<circ> key_of) (pre @ c # cs))"
    and d: "distinct (filter is_single (map key_of (pre @ c # cs)))"
  shows "verdict pre c = None"
proof (cases "key_of c \<in> key_of ` set pre")
  case True
  have "\<not> is_single (key_of c)"
  proof
    assume "is_single (key_of c)"
    with True have "key_of c \<in> set (filter is_single (map key_of pre))" by auto
    with d \<open>is_single (key_of c)\<close> show False by auto
  qed
  with True show ?thesis by (simp add: verdict_def)
next
  case False
  from s have "\<forall>c'\<in>set pre. canonical_index (key_of c') \<le> canonical_index (key_of c)"
    by (auto simp: sorted_append)
  then have "\<not> (\<exists>c'\<in>set pre. canonical_index (key_of c) < canonical_index (key_of c'))"
    by (auto simp: not_less)
  with False show ?thesis by (simp add: verdict_def)
qed

lemma first_error_sorted:
  "sorted (map (canonical_index \<circ> key_of) (pre @ cs)) \<Longrightarrow>
   distinct (filter is_single (map key_of (pre @ cs))) \<Longrightarrow> first_error pre cs = None"
proof (induction cs arbitrary: pre)
  case Nil
  then show ?case by simp
next
  case (Cons c cs)
  from Cons.prems have "verdict pre c = None" by (rule verdict_sorted)
  moreover from Cons.prems have "first_error (pre @ [c]) cs = None"
    by (intro Cons.IH) simp_all
  ultimately show ?case by simp
qed

lemma chain_from_empty:
  assumes e: "selectors (objs h a) = []"
  shows "fst (chain cs a h) = (case first_error [] cs of None \<Rightarrow> Inr a | Some e \<Rightarrow> Inl e)"
    and "first_error [] cs = None \<Longrightarrow> built (nextArr h) cs a (snd (chain cs a h))"
    and "touches_only (nextArr h) a h (snd (chain cs a h))"
  using chain_built[OF built_empty[OF e order_refl], of cs] by simp_all

lemma chain_accepted_iff:
  assumes e: "selectors (objs h a) = []"
  shows "(\<exists>t. fst (chain cs a h) = Inr t) \<longleftrightarrow> first_error [] cs = None"
  using chain_from_empty(1)[OF e, of cs] by (cases "first_error [] cs") auto

lemma new_SelectorBuild_empty:
  "selectors (objs (snd (new_SelectorBuild h)) (fst (new_SelectorBuild h))) = []"
  "arrCombine (objs (snd (new_SelectorBuild h)) (fst (new_SelectorBuild h))) = []"
  "nextArr (snd (new_SelectorBuild h)) = nextArr h"
  "arrs (snd (new_SelectorBuild h)) = arrs h"
  by (simp_all add: new_SelectorBuild_def)

lemma facade_is_chain:
  "cssSelectorBuilder_element v h = chain [CallElement v] (fst (new_SelectorBuild h)) (snd (new_SelectorBuild h))"
  "cssSelectorBuilder_id v h = chain [CallId v] (fst (new_SelectorBuild h)) (snd (new_SelectorBuild h))"
  "cssSelectorBuilder_class v h = chain [CallClass v] (fst (new_SelectorBuild h)) (snd (new_SelectorBuild h))"
  "cssSelectorBuilder_attr v h = chain [CallAttr v] (fst (new_SelectorBuild h)) (snd (new_SelectorBuild h))"
  "cssSelectorBuilder_pseudoClass v h = chain [CallPseudoClass v] (fst (new_SelectorBuild h)) (snd (new_SelectorBuild h))"
  "cssSelectorBuilder_pseudoElement v h = chain [CallPseudoElement v] (fst (new_SelectorBuild h)) (snd (new_SelectorBuild h))"
  by (auto simp: cssSelectorBuilder_element_def cssSelectorBuilder_id_def cssSelectorBuilder_class_def
      cssSelectorBuilder_attr_def cssSelectorBuilder_pseudoClass_def cssSelectorBuilder_pseudoElement_def
      split: prod.splits sum.splits)

subsection \<open>Part adders never write the combined chain\<close>

lemma apply_call_returns_this: "fst (apply_call c this h) = Inr t \<Longrightarrow> t = this"
  by (cases rule: push_part_forms[of h this "key_of c"])
     (auto simp: apply_call_shape set_part_cases push_part_absent push_part_present push_part_Str
        split: if_splits)

lemma chain_arrCombine: "arrCombine (objs (snd (chain cs this h)) b) = arrCombine (objs h b)"
proof (induction cs arbitrary: h)
  case Nil
  show ?case by simp
next
  case (Cons c cs)
  obtain res h1 where ac: "apply_call c this h = (res, h1)" by (cases "apply_call c this h")
  have h1: "arrCombine (objs h1 b) = arrCombine (objs h b)"
    using apply_call_frame(2)[of c this h b] by (simp add: ac)
  show ?case
  proof (cases res)
    case (Inl e)
    then show ?thesis using h1 by (simp add: ac)
  next
    case (Inr t)
    then have "t = this" using apply_call_returns_this[of c this h t] by (simp add: ac)
    with Inr Cons.IH[of h1] h1 show ?thesis by (simp add: ac)
  qed
qed

lemma adders_leave_chain_empty:
  "arrCombine (objs (snd (chain cs (fst (new_SelectorBuild h)) (snd (new_SelectorBuild h))))
      (fst (new_SelectorBuild h))) = []"
  by (simp add: chain_arrCombine new_SelectorBuild_empty)

subsection \<open>Array references stay allocated\<close>

text \<open>Every store that the operations reach from \<open>heap0\<close> has this property.\<close>

lemma refs_allocated_heap0: "refs_allocated a heap0"
  by (simp add: refs_allocated_def heap0_def Map_values_def)

lemma refs_allocated_new:
  "refs_allocated b h \<Longrightarrow> refs_allocated b (snd (new_SelectorBuild h))"
  "refs_allocated (fst (new_SelectorBuild h)) (snd (new_SelectorBuild h))"
  by (auto simp: refs_allocated_def new_SelectorBuild_def Map_values_def)

lemma refs_allocated_set_part:
  "refs_allocated b h \<Longrightarrow> refs_allocated b (snd (set_part k s this h))"
  by (auto simp: refs_allocated_def set_part_cases Map_values_def)

lemma refs_allocated_push_part:
  assumes "refs_allocated b h"
  shows "refs_allocated b (snd (push_part k s this h))"
proof (cases rule: push_part_forms[of h this k])
  case absent
  with assms show ?thesis
    by (auto simp: refs_allocated_def push_part_absent Map_values_def less_Suc_eq)
next
  case (array r)
  with assms show ?thesis by (auto simp: refs_allocated_def push_part_present Map_values_def)
next
  case (string x)
  with assms show ?thesis by (simp add: push_part_Str)
qed

lemma refs_allocated_apply_call:
  "refs_allocated b h \<Longrightarrow> refs_allocated b (snd (apply_call c this h))"
  by (simp add: apply_call_shape refs_allocated_set_part refs_allocated_push_part)

lemma refs_allocated_combine:
  assumes "refs_allocated selector1 h" and "refs_allocated selector2 h" and "refs_allocated b h"
  shows "refs_allocated b (snd (combine selector1 combinator selector2 this h))"
  using assms by (auto simp: combine_def refs_allocated_def)

lemma reachable_refs_allocated: "reachable h \<Longrightarrow> refs_allocated a h"
proof (induction arbitrary: a rule: reachable.induct)
  case start
  show ?case by (rule refs_allocated_heap0)
next
  case (construct h)
  then show ?case by (simp add: refs_allocated_new)
next
  case (add_part h this c)
  then show ?case by (simp add: refs_allocated_apply_call)
next
  case (combination h selector1 selector2 this combinator)
  then show ?case by (simp add: refs_allocated_combine)
qed

text \<open>The method \<open>combine\<close> on a receiver that is neither argument, as the facade calls
  it, writes to the receiver only.\<close>

lemma combine_frame:
  assumes "this \<noteq> selector1" and "this \<noteq> selector2"
  shows "objs (snd (combine selector1 combinator selector2 this h)) selector1 = objs h selector1"
    and "objs (snd (combine selector1 combinator selector2 this h)) selector2 = objs h selector2"
    and "arrs (snd (combine selector1 combinator selector2 this h)) = arrs h"
  using assms by (simp_all add: combine_def)

subsection \<open>The example of the source's comment\<close>

text \<open>The model gives the string that the comment above the class gives for its nested
  combination.\<close>

lemma documented_example:
  "stringify 6
     (snd (cssSelectorBuilder_combine 0 ''+'' 5
       (snd (cssSelectorBuilder_combine 1 ''~'' 4
         (snd (cssSelectorBuilder_combine 2 '' '' 3 documented_selectors))))))
   = ''div#main.container.draggable + table#data ~ tr:nth-of-type(even)   td:nth-of-type(even)''"
  by (simp add: documented_selectors_def eval_defs)

subsection \<open>The bound of the JSON parser\<close>

text \<open>Every parser that returns has read at least one code unit.\<close>

lemma length_skip_ws: "length (skip_ws cs) \<le> length cs"
  by (simp add: skip_ws_def length_dropWhile_le)

lemma consed_Some: "consed x r = Some (ys, t) \<longleftrightarrow> (\<exists>xs. r = Some (xs, t) \<and> ys = x # xs)"
  by (auto simp: consed_def split: option.splits)

lemma parse_chars_shorter: "parse_chars cs = Some (s, r) \<Longrightarrow> length r < length cs"
proof (induction "length cs" arbitrary: cs s r rule: less_induct)
  case less
  show ?case
  proof (cases cs)
    case Nil
    with less.prems show ?thesis by simp
  next
    case (Cons c cs')
    have IH: "\<And>t s' r'. parse_chars t = Some (s', r') \<Longrightarrow> length t \<le> length cs' \<Longrightarrow> length r' < length t"
      using less.hyps Cons by simp
    from less.prems Cons show ?thesis
      by (auto simp: consed_Some split: if_splits list.splits option.splits dest!: IH)
  qed
qed

lemma digits1_shorter: "digits1 cs = Some (s, r) \<Longrightarrow> length r < length cs"
  by (cases cs) (auto simp: digits1_def split: if_splits intro: le_imp_less_Suc length_dropWhile_le)

lemma parse_int_shorter: "parse_int cs = Some (s, r) \<Longrightarrow> length r < length cs"
  by (auto simp: parse_int_def split: list.splits if_splits intro: le_imp_less_Suc length_dropWhile_le)

lemma parse_fraction_shorter: "parse_fraction cs = Some (s, r) \<Longrightarrow> length r \<le> length cs"
  by (auto simp: parse_fraction_def split: list.splits if_splits option.splits dest!: digits1_shorter)

lemma parse_exponent_shorter: "parse_exponent cs = Some (s, r) \<Longrightarrow> length r \<le> length cs"
  by (auto simp: parse_exponent_def split: list.splits if_splits option.splits dest!: digits1_shorter)

lemma parse_number_shorter: "parse_number cs = Some (s, r) \<Longrightarrow> length r < length cs"
  by (auto simp: parse_number_def split: list.splits if_splits option.splits prod.splits
      dest!: parse_int_shorter parse_fraction_shorter parse_exponent_shorter)

lemma parse_word_shorter: "w \<noteq> [] \<Longrightarrow> parse_word w v cs = Some (x, r) \<Longrightarrow> length r < length cs"
  by (cases w; cases cs) (auto simp: parse_word_def split: if_splits)

lemma skip_ws_ConsD: "skip_ws cs = c # r \<Longrightarrow> length r < length cs"
  using length_skip_ws [of cs] by simp

lemma parse_shorter:
  "(\<forall>cs v r. parse_value n cs = Some (v, r) \<longrightarrow> length r < length cs) \<and>
   (\<forall>cs ms r. parse_members n cs = Some (ms, r) \<longrightarrow> length r < length cs) \<and>
   (\<forall>cs es r. parse_elements n cs = Some (es, r) \<longrightarrow> length r < length cs)"
proof (induction n)
  case 0
  show ?case by simp
next
  case (Suc n)
  have V: "\<And>cs v r. parse_value n cs = Some (v, r) \<Longrightarrow> length r < length cs"
    and M: "\<And>cs ms r. parse_members n cs = Some (ms, r) \<Longrightarrow> length r < length cs"
    and E: "\<And>cs es r. parse_elements n cs = Some (es, r) \<Longrightarrow> length r < length cs"
    using Suc by blast+
  have w: "js ''true'' \<noteq> []" "js ''false'' \<noteq> []" "js ''null'' \<noteq> []"
    by (simp_all add: js_def)
  have 1: "length r < length cs" if "parse_value (Suc n) cs = Some (v, r)" for cs v r
    using that
    by (auto split: list.splits if_splits option.splits
        dest!: skip_ws_ConsD M E parse_chars_shorter parse_number_shorter
               parse_word_shorter[OF w(1)] parse_word_shorter[OF w(2)] parse_word_shorter[OF w(3)])
  have M': "length r < length t" if "parse_members n (skip_ws t) = Some (ms, r)" for t ms r
    using M [OF that] length_skip_ws [of t] by simp
  have 2: "length r < length cs" if "parse_members (Suc n) cs = Some (ms, r)" for cs ms r
    using that
    by (auto simp: consed_Some split: list.splits if_splits option.splits
        dest!: skip_ws_ConsD V M' parse_chars_shorter)
  have 3: "length r < length cs" if "parse_elements (Suc n) cs = Some (es, r)" for cs es r
    using that
    by (auto simp: consed_Some split: list.splits if_splits option.splits
        dest!: skip_ws_ConsD V E)
  from 1 2 3 show ?case by blast
qed

text \<open>With a bound above twice the length of the text, one more unit of the bound changes
  nothing; so neither does any larger bound, and \<open>None\<close> from \<open>parse_text\<close> is never the
  bound running out.\<close>

lemma parse_fuel_step:
  "(\<forall>cs. 2 * length cs < n \<longrightarrow> parse_value n cs = parse_value (Suc n) cs) \<and>
   (\<forall>cs. 2 * length cs < n \<longrightarrow> parse_members n cs = parse_members (Suc n) cs) \<and>
   (\<forall>cs. 2 * length cs + 1 < n \<longrightarrow> parse_elements n cs = parse_elements (Suc n) cs)"
proof (induction n)
  case 0
  show ?case by simp
next
  case (Suc n)
  have V: "\<And>cs. 2 * length cs < n \<Longrightarrow> parse_value n cs = parse_value (Suc n) cs"
    and M: "\<And>cs. 2 * length cs < n \<Longrightarrow> parse_members n cs = parse_members (Suc n) cs"
    and E: "\<And>cs. 2 * length cs + 1 < n \<Longrightarrow> parse_elements n cs = parse_elements (Suc n) cs"
    using Suc by blast+
  have 1: "parse_value (Suc n) cs = parse_value (Suc (Suc n)) cs" if b: "2 * length cs < Suc n" for cs
  proof (cases "skip_ws cs")
    case Nil
    then show ?thesis by simp
  next
    case outer: (Cons c r)
    note l1 = skip_ws_ConsD [OF outer]
    show ?thesis
    proof (cases "skip_ws r")
      case Nil
      with outer show ?thesis by simp
    next
      case inner: (Cons d r')
      have l2: "length (d # r') \<le> length r"
        using length_skip_ws [of r] inner by simp
      have m: "parse_members n (d # r') = parse_members (Suc n) (d # r')"
        by (rule M) (use b l1 l2 in simp)
      have e: "parse_elements n (d # r') = parse_elements (Suc n) (d # r')"
        by (rule E) (use b l1 l2 in simp)
      show ?thesis
        by (simp only: parse_value.simps outer inner list.case m e)
    qed
  qed
  have 2: "parse_members (Suc n) cs = parse_members (Suc (Suc n)) cs" if b: "2 * length cs < Suc n" for cs
  proof (cases cs)
    case Nil
    then show ?thesis by simp
  next
    case c0: (Cons q r)
    show ?thesis
    proof (cases "parse_chars r")
      case None
      with c0 show ?thesis by simp
    next
      case (Some kr)
      obtain k r1 where kr: "kr = (k, r1)" by (cases kr)
      note c1 = Some [unfolded kr]
      note l1 = parse_chars_shorter [OF c1]
      show ?thesis
      proof (cases "skip_ws r1")
        case Nil
        with c0 c1 show ?thesis by simp
      next
        case c2: (Cons colon r2)
        note l2 = skip_ws_ConsD [OF c2]
        have v: "parse_value n r2 = parse_value (Suc n) r2"
          by (rule V) (use b c0 l1 l2 in simp)
        show ?thesis
        proof (cases "parse_value (Suc n) r2")
          case None
          with c0 c1 c2 v show ?thesis by simp
        next
          case (Some vr)
          obtain val r3 where vr: "vr = (val, r3)" by (cases vr)
          note c3 = Some [unfolded vr]
          have l3: "length r3 < length r2"
            using parse_shorter [of "Suc n"] c3 by blast
          show ?thesis
          proof (cases "skip_ws r3")
            case Nil
            with c0 c1 c2 c3 v show ?thesis by simp
          next
            case c4: (Cons d r4)
            note l4 = skip_ws_ConsD [OF c4]
            have m: "parse_members n (skip_ws r4) = parse_members (Suc n) (skip_ws r4)"
              by (rule M) (use b c0 l1 l2 l3 l4 length_skip_ws [of r4] in simp)
            show ?thesis
              by (simp only: parse_members.simps c0 c1 c2 c3 c4 v m list.case option.case prod.case)
          qed
        qed
      qed
    qed
  qed
  have 3: "parse_elements (Suc n) cs = parse_elements (Suc (Suc n)) cs" if b: "2 * length cs + 1 < Suc n" for cs
  proof -
    have v: "parse_value n cs = parse_value (Suc n) cs"
      by (rule V) (use b in simp)
    show ?thesis
    proof (cases "parse_value (Suc n) cs")
      case None
      with v show ?thesis by simp
    next
      case (Some vr)
      obtain val r1 where vr: "vr = (val, r1)" by (cases vr)
      note c1 = Some [unfolded vr]
      have l1: "length r1 < length cs"
        using parse_shorter [of "Suc n"] c1 by blast
      show ?thesis
      proof (cases "skip_ws r1")
        case Nil
        with c1 v show ?thesis by simp
      next
        case c2: (Cons d r2)
        note l2 = skip_ws_ConsD [OF c2]
        have e: "parse_elements n r2 = parse_elements (Suc n) r2"
          by (rule E) (use b l1 l2 in simp)
        show ?thesis
          by (simp only: parse_elements.simps c1 c2 v e list.case option.case prod.case)
      qed
    qed
  qed
  from 1 2 3 show ?case by blast
qed

lemma parse_value_fuel:
  assumes "2 * length cs < n" and "n \<le> m"
  shows "parse_value m cs = parse_value n cs"
  using assms(2,1)
proof (induction m rule: dec_induct)
  case base
  show ?case by simp
next
  case (step m)
  then have "2 * length cs < m" by simp
  with parse_fuel_step [of m] step show ?case by simp
qed

lemma parse_text_fuel:
  assumes "2 * length text < m"
  shows "parse_text text =
           (case parse_value m text of
              None \<Rightarrow> None
            | Some (v, r) \<Rightarrow> if skip_ws r = [] then Some v else None)"
proof -
  have "parse_value m text = parse_value (Suc (length text + length text)) text"
    by (rule parse_value_fuel) (use assms in simp_all)
  then show ?thesis by (simp only: parse_text_def)
qed

subsection \<open>The bound of the walks along a prototype chain\<close>

lemma find_on_chain_fuel:
  "chain_ends n h p \<Longrightarrow> n \<le> m \<Longrightarrow> find_on_chain m h p k = find_on_chain n h p k"
proof (induction n h p arbitrary: m rule: chain_ends.induct)
  case (1 n h)
  show ?case by (cases m; cases n) simp_all
next
  case (2 h a)
  then show ?case by simp
next
  case (3 n h a)
  from "3.prems" obtain m' where m: "m = Suc m'" and le: "n \<le> m'" by (cases m) auto
  from "3.prems" have e: "chain_ends n h (prototype (object_at h a))" by simp
  have "find_on_chain m' h (prototype (object_at h a)) k = find_on_chain n h (prototype (object_at h a)) k"
    using e le by (rule "3.IH")
  then show ?case unfolding m by (simp only: find_on_chain.simps)
qed

lemma on_chain_fuel:
  "chain_ends n h p \<Longrightarrow> n \<le> m \<Longrightarrow> on_chain m h p a = on_chain n h p a"
proof (induction n h p arbitrary: m rule: chain_ends.induct)
  case (1 n h)
  show ?case by (cases m; cases n) simp_all
next
  case (2 h b)
  then show ?case by simp
next
  case (3 n h b)
  from "3.prems" obtain m' where m: "m = Suc m'" and le: "n \<le> m'" by (cases m) auto
  from "3.prems" have e: "chain_ends n h (prototype (object_at h b))" by simp
  have "on_chain m' h (prototype (object_at h b)) a = on_chain n h (prototype (object_at h b)) a"
    using e le by (rule "3.IH")
  then show ?case unfolding m by (simp only: on_chain.simps)
qed

lemma chain_ends_mono: "chain_ends n h p \<Longrightarrow> n \<le> m \<Longrightarrow> chain_ends m h p"
proof (induction n h p arbitrary: m rule: chain_ends.induct)
  case (1 n h)
  show ?case by simp
next
  case (2 h a)
  then show ?case by simp
next
  case (3 n h a)
  from "3.prems" obtain m' where m: "m = Suc m'" and le: "n \<le> m'" by (cases m) auto
  from "3.prems" have e: "chain_ends n h (prototype (object_at h a))" by simp
  have "chain_ends m' h (prototype (object_at h a))"
    using e le by (rule "3.IH")
  then show ?case unfolding m by simp
qed

lemma links_down_chain_ends:
  assumes "links_down h"
  shows "chain_ends (Suc a) h (Some a)"
proof (induction a rule: less_induct)
  case (less a)
  show ?case
  proof (cases "prototype (object_at h a)")
    case None
    then show ?thesis by simp
  next
    case (Some p)
    with assms have "p < a" by (simp add: links_down_def)
    from less [OF this] have "chain_ends a h (Some p)"
      by (rule chain_ends_mono) (use \<open>p < a\<close> in simp)
    with Some show ?thesis by simp
  qed
qed

lemma links_down_fuel:
  assumes "links_down h" and "a < next_object h" and "next_object h \<le> m"
  shows "find_on_chain m h (Some a) k = find_on_chain (next_object h) h (Some a) k"
proof -
  have e: "chain_ends (Suc a) h (Some a)"
    using assms(1) by (rule links_down_chain_ends)
  have "find_on_chain m h (Some a) k = find_on_chain (Suc a) h (Some a) k"
    by (rule find_on_chain_fuel [OF e]) (use assms in simp)
  moreover have "find_on_chain (next_object h) h (Some a) k = find_on_chain (Suc a) h (Some a) k"
    by (rule find_on_chain_fuel [OF e]) (use assms in simp)
  ultimately show ?thesis by simp
qed

lemma links_down_new_object:
  assumes "links_down h" and "prototype (object_at h (next_object h)) = None"
    and "\<And>b. p = Some b \<Longrightarrow> b < next_object h"
  shows "links_down (snd (new_object p ps h))"
  unfolding links_down_def
proof (intro allI impI)
  fix a q
  assume q: "prototype (object_at (snd (new_object p ps h)) a) = Some q"
  show "q < a"
  proof (cases "a = next_object h")
    case True
    with q have "p = Some q" by (simp add: new_object_def)
    with assms(3) True show ?thesis by simp
  next
    case False
    with q have "prototype (object_at h a) = Some q" by (simp add: new_object_def)
    with assms(1) show ?thesis by (simp add: links_down_def)
  qed
qed

lemma links_down_define_property:
  assumes "links_down h"
  shows "links_down (define_property a k p h)"
  unfolding links_down_def
proof (intro allI impI)
  fix b q
  assume "prototype (object_at (define_property a k p h) b) = Some q"
  then have "prototype (object_at h b) = Some q"
    by (cases "b = a") (simp_all add: define_property_def)
  with assms show "q < b" by (simp add: links_down_def)
qed

lemma prototype_realm0: "prototype (object_at realm0 a) = (if a = 1 then Some 0 else None)"
  by (simp add: realm0_def)

lemma links_down_realm0: "links_down realm0"
  by (simp add: links_down_def prototype_realm0)

lemma prototype_with_Circle:
  "prototype (object_at with_Circle a) = (if a = 1 \<or> a = 2 then Some 0 else None)"
  by (simp add: with_Circle_def new_object_def prototype_realm0 Object_prototype_def realm0_def)

lemma links_down_with_Circle: "links_down with_Circle"
  by (simp add: links_down_def prototype_with_Circle)

subsection \<open>Evaluating \<open>fromJSON\<close>\<close>

text \<open>The walks along a prototype chain, for a bound that is a numeral.\<close>

lemma find_on_chain_numeral [simp]:
  "find_on_chain (numeral v) h None k = NotFound"
  "find_on_chain (numeral v) h (Some a) k =
     (case map_of (properties (object_at h a)) k of
        None \<Rightarrow> find_on_chain (pred_numeral v) h (prototype (object_at h a)) k
      | Some (Data u w e) \<Rightarrow> FoundData u w
      | Some ProtoAccessor \<Rightarrow> FoundAccessor)"
  by (simp_all add: numeral_eq_Suc)

lemma on_chain_numeral [simp]:
  "on_chain (numeral v) h None a = False"
  "on_chain (numeral v) h (Some b) a = (b = a \<or> on_chain (pred_numeral v) h (prototype (object_at h b)) a)"
  by (simp_all add: numeral_eq_Suc)

text \<open>What the updates of the store leave at an address.\<close>

lemma new_object_simps [simp]:
  "fst (new_object p ps h) = next_object h"
  "next_object (snd (new_object p ps h)) = Suc (next_object h)"
  "object_at (snd (new_object p ps h)) a =
     (if a = next_object h then \<lparr>prototype = p, properties = ps\<rparr> else object_at h a)"
  by (simp_all add: new_object_def)

lemma define_property_simps [simp]:
  "next_object (define_property a k p h) = next_object h"
  "object_at (define_property a k p h) b =
     (if b = a then (object_at h a)\<lparr>properties := define_own (properties (object_at h a)) k p\<rparr>
      else object_at h b)"
  by (simp_all add: define_property_def)

lemma set_prototype_simps [simp]:
  "next_object (set_prototype a p h) = next_object h"
  "object_at (set_prototype a p h) b =
     (if b = a then (object_at h a)\<lparr>prototype := p\<rparr> else object_at h b)"
  by (simp_all add: set_prototype_def)

lemma realm0_simps [simp]:
  "next_object realm0 = 2"
  "object_at realm0 0 = \<lparr>prototype = None,
               properties =
                 [builtin 0 ''constructor'', builtin 1 ''hasOwnProperty'', builtin 2 ''isPrototypeOf'',
                  builtin 3 ''propertyIsEnumerable'', builtin 4 ''toLocaleString'', builtin 5 ''toString'',
                  builtin 6 ''valueOf'', (js ''__proto__'', ProtoAccessor),
                  builtin 7 ''__defineGetter__'', builtin 8 ''__defineSetter__'',
                  builtin 9 ''__lookupGetter__'', builtin 10 ''__lookupSetter__'']\<rparr>"
  by (simp_all add: realm0_def)

lemmas js_eval =
  js_def skip_ws_def is_ws_def is_digit_def consed_def parse_text_def parse_word_def parse_number_def
  parse_int_def parse_fraction_def parse_exponent_def digits1_def hex4_def hex_digit_def escape_def
  Object_prototype_def Array_prototype_def
  index_value_def is_array_index_def own_property_keys_def JSON_parse_def proto_of_value_def
  proto_setter_def proto_getter_def get_property_def set_property_def Object_assign_def
  Object_create_def fromJSON_def builtin_def with_Circle_def split_beta Let_def

subsection \<open>The example of the comment above \<open>fromJSON\<close>\<close>

text \<open>On the text of the example the function returns the new object at address 3, whose
  prototype is the one passed, whose only own property is \<open>radius\<close> with the value of the
  text, and on which \<open>getArea\<close> reads as the method of the prototype.\<close>

lemma documented_fromJSON:
  "fst (fromJSON (Some 2) (js ''{\"radius\":10}'') with_Circle) = Inr (VObject 3) \<and>
   prototype (object_at (snd (fromJSON (Some 2) (js ''{\"radius\":10}'') with_Circle)) 3) = Some 2 \<and>
   properties (object_at (snd (fromJSON (Some 2) (js ''{\"radius\":10}'') with_Circle)) 3)
     = [(js ''radius'', Data (VNumber (js ''10'')) True True)] \<and>
   get_property 3 (js ''getArea'') (snd (fromJSON (Some 2) (js ''{\"radius\":10}'') with_Circle))
     = VFunction 101"
  by (simp add: js_eval)

text \<open>The store that the example starts from has its links leading down, so the bound of
  the walks is not reached there. On the text with a member \<open>__proto__\<close> below the setter
  gives the returned object a prototype allocated after it; its chain is the returned object,
  the parsed \<open>{}\<close> and \<open>Object.prototype\<close>, within the bound of six objects.\<close>

lemma proto_key_chain_ends:
  "next_object (snd (fromJSON (Some 2) (js ''{\"radius\":10,\"__proto__\":{}}'') with_Circle)) = 6 \<and>
   chain_ends (Suc (Suc (Suc 0)))
     (snd (fromJSON (Some 2) (js ''{\"radius\":10,\"__proto__\":{}}'') with_Circle)) (Some 3)"
  by (simp add: js_eval)

section \<open>The claims\<close>

text \<open>
  C1, as claimed: a part-adding call raises the order error exactly when the canonical
  index of its kind is less than the greatest canonical index added before, also for a
  second class after an attribute. The code tests the order of the keys of the \<open>Map\<close>,
  and a kind that is present keeps its key where it is: \<open>class('a').attr('b').class('c')\<close>
  is accepted although the index of class is less than that of attr, and renders
  \<open>.a.c[b]\<close>.
\<close>

theorem order_error_counterexample:
  "canonical_index (key_of (CallClass ''c'')) < canonical_index (key_of (CallAttr ''b'')) \<and>
   fst (chain [CallClass ''a'', CallAttr ''b''] 0 (snd (new_SelectorBuild heap0))) = Inr 0 \<and>
   fst (apply_call (CallClass ''c'') 0 class_then_attr) = Inr 0 \<and>
   stringify 0 (snd (apply_call (CallClass ''c'') 0 class_then_attr)) = ''.a.c[b]''"
  by (simp add: class_then_attr_def canonical_index_def eval_defs)

text \<open>
  C1, amended: on a selector that accepted calls \<open>cs\<close> have built from a selector without
  parts (a new one, or the result of \<open>combine\<close>), a further call raises the order error
  exactly when its kind is not present yet and its canonical index is less than the
  canonical index of some part added before. It raises the duplicate error exactly when
  its kind is single-valued and present, and a call of a multi-valued kind that is
  present is accepted.
\<close>

theorem order_error_iff:
  assumes e: "selectors (objs h a) = []" and ch: "chain cs a h = (Inr a', h')"
  shows "(fst (apply_call c a' h') = Inl OrderViolationError \<longleftrightarrow>
            key_of c \<notin> key_of ` set cs \<and>
            (\<exists>c'\<in>set cs. canonical_index (key_of c) < canonical_index (key_of c'))) \<and>
         (fst (apply_call c a' h') = Inl DuplicatePartError \<longleftrightarrow>
            key_of c \<in> key_of ` set cs \<and> is_single (key_of c)) \<and>
         (key_of c \<in> key_of ` set cs \<and> \<not> is_single (key_of c) \<longrightarrow>
            fst (apply_call c a' h') = Inr a')"
proof -
  from chain_from_empty(1)[OF e, of cs] ch have fe: "first_error [] cs = None" and a': "a' = a"
    by (cases "first_error [] cs"; simp)+
  from chain_from_empty(2)[OF e fe] ch have b: "built (nextArr h) cs a h'" by simp
  show ?thesis
    unfolding a' using apply_call_built(1)[OF b, of c]
    by (auto simp: verdict_def split: if_splits)
qed

theorem order_error_iff_witness:
  "selectors (objs (snd (new_SelectorBuild heap0)) 0) = [] \<and>
   chain [CallClass ''a'', CallAttr ''b''] 0 (snd (new_SelectorBuild heap0)) = (Inr 0, class_then_attr) \<and>
   fst (apply_call (CallId ''x'') 0 class_then_attr) = Inl OrderViolationError"
proof -
  have e: "selectors (objs (snd (new_SelectorBuild heap0)) 0) = []"
    by (simp add: eval_defs)
  have ch: "chain [CallClass ''a'', CallAttr ''b''] 0 (snd (new_SelectorBuild heap0)) = (Inr 0, class_then_attr)"
    by (simp add: prod_eq_iff class_then_attr_def eval_defs)
  have "key_of (CallId ''x'') \<notin> key_of ` set [CallClass ''a'', CallAttr ''b''] \<and>
        (\<exists>c'\<in>set [CallClass ''a'', CallAttr ''b''].
            canonical_index (key_of (CallId ''x'')) < canonical_index (key_of c'))"
    by (simp add: canonical_index_def positions_def)
  with order_error_iff[OF e ch, of "CallId ''x''"] e ch show ?thesis by simp
qed

text \<open>
  C2. The claim: \<open>combine(combine(x,'~',y), '+', z).render()\<close> equals
  \<open>x.render() + ' ~ ' + y.render() + ' + ' + z.render()\<close>. The code does not do this:
  \<open>combine\<close> pushes \<open>selector1.selectors.values()\<close> but not \<open>selector1.arrCombine\<close>, while
  for \<open>selector2\<close> it pushes both. With \<open>x = element('a')\<close>, \<open>y = element('b')\<close>,
  \<open>z = element('c')\<close> the inner combination renders \<open>a ~ b\<close> and the outer one renders
  \<open> + c\<close>, where the claim says \<open>a ~ b + c\<close>.
\<close>

theorem nested_left_combination_drops_chain:
  "stringify 0 three_elements = ''a'' \<and> stringify 1 three_elements = ''b'' \<and>
   stringify 2 three_elements = ''c'' \<and>
   fst (cssSelectorBuilder_combine 0 ''~'' 1 three_elements) = 3 \<and>
   stringify 3 (snd (cssSelectorBuilder_combine 0 ''~'' 1 three_elements)) = ''a ~ b'' \<and>
   fst (cssSelectorBuilder_combine 3 ''+'' 2
          (snd (cssSelectorBuilder_combine 0 ''~'' 1 three_elements))) = 4 \<and>
   stringify 4 (snd (cssSelectorBuilder_combine 3 ''+'' 2
          (snd (cssSelectorBuilder_combine 0 ''~'' 1 three_elements)))) = '' + c''"
  by (simp add: three_elements_def eval_defs)

text \<open>
  C3. The claim: a part-adding call that raises leaves the selector as it was before the
  call. The adders do so for the duplicate error, where \<open>validUniq\<close> runs before the
  store (\<open>set_part_Dup_unchanged\<close>). For the order error they do not: the fragment is
  stored and \<open>validPosition\<close> is called afterwards. After \<open>id('a')\<close>, the call
  \<open>element('b')\<close> raises the order error; the store is no longer the one before the
  call, the keys of the \<open>Map\<close> are \<open>id\<close>, \<open>element\<close>, in an order that \<open>validPosition\<close>
  itself rejects, the selector renders \<open>#ab\<close> where it rendered \<open>#a\<close>, and a later
  \<open>pseudoElement('c')\<close>, which is in order after an id, raises the order error too.
\<close>

theorem order_error_after_store:
  "stringify 0 only_id = ''#a'' \<and>
   fst (element ''b'' 0 only_id) = Inl OrderViolationError \<and>
   snd (element ''b'' 0 only_id) \<noteq> only_id \<and>
   Map_keys (selectors (objs (snd (element ''b'' 0 only_id)) 0)) = [''id'', ''element''] \<and>
   stringify 0 (snd (element ''b'' 0 only_id)) = ''#ab'' \<and>
   fst (pseudoElement ''c'' 0 only_id) = Inr 0 \<and>
   fst (pseudoElement ''c'' 0 (snd (element ''b'' 0 only_id))) = Inl OrderViolationError"
proof -
  have 1: "stringify 0 only_id = ''#a''"
    and 2: "fst (element ''b'' 0 only_id) = Inl OrderViolationError"
    and 3: "Map_keys (selectors (objs (snd (element ''b'' 0 only_id)) 0)) = [''id'', ''element'']"
    and 4: "stringify 0 (snd (element ''b'' 0 only_id)) = ''#ab''"
    and 5: "fst (pseudoElement ''c'' 0 only_id) = Inr 0"
    and 6: "fst (pseudoElement ''c'' 0 (snd (element ''b'' 0 only_id))) = Inl OrderViolationError"
    by (simp_all add: only_id_def eval_defs)
  from 1 4 have "stringify 0 (snd (element ''b'' 0 only_id)) \<noteq> stringify 0 only_id" by simp
  then have 7: "snd (element ''b'' 0 only_id) \<noteq> only_id" by metis
  show ?thesis by (intro conjI) (rule 1 2 3 4 5 6 7)+
qed

text \<open>
  C4, as claimed: every sequence of calls with non-decreasing canonical indices renders
  as the concatenation of all its fragments. \<open>element('a').element('b')\<close> has
  non-decreasing indices; its second call raises the duplicate error, and the selector
  renders \<open>a\<close>, not \<open>ab\<close>.
\<close>

theorem render_counterexample:
  "sorted (map (canonical_index \<circ> key_of) [CallElement ''a'', CallElement ''b'']) \<and>
   fst (chain [CallElement ''a'', CallElement ''b''] 0 (snd (new_SelectorBuild heap0)))
     = Inl DuplicatePartError \<and>
   stringify 0 (snd (chain [CallElement ''a'', CallElement ''b''] 0 (snd (new_SelectorBuild heap0))))
     = ''a'' \<and>
   canonical_render [CallElement ''a'', CallElement ''b''] = ''ab''"
  by (simp add: canonical_index_def canonical_render_def frags_def eval_defs)

text \<open>
  C4, amended: for every sequence of calls on a new selector whose canonical indices are
  non-decreasing and in which no single-valued kind (element, id, pseudo-element) occurs
  twice, every call is accepted and \<open>render()\<close> returns \<open>canonical_render\<close> of the
  sequence: for each kind in the order element, id, class, attribute, pseudo-class,
  pseudo-element, the fragments of that kind in the order they were added, each with the
  prefix that \<open>fragment\<close> gives it, and nothing between them.
\<close>

theorem render_of_valid_sequence:
  assumes "sorted (map (canonical_index \<circ> key_of) cs)"
    and "distinct (filter is_single (map key_of cs))"
  shows "fst (chain cs (fst (new_SelectorBuild h)) (snd (new_SelectorBuild h))) = Inr (fst (new_SelectorBuild h)) \<and>
         stringify (fst (new_SelectorBuild h)) (snd (chain cs (fst (new_SelectorBuild h)) (snd (new_SelectorBuild h))))
           = canonical_render cs"
proof -
  let ?a = "fst (new_SelectorBuild h)" and ?h = "snd (new_SelectorBuild h)"
  let ?h' = "snd (chain cs ?a ?h)"
  have fe: "first_error [] cs = None" using assms by (intro first_error_sorted) simp_all
  note ch = chain_from_empty[OF new_SelectorBuild_empty(1)[of h], of cs]
  from ch(1) fe have ok: "fst (chain cs ?a ?h) = Inr ?a" by simp
  from ch(2)[OF fe] have b: "built (nextArr ?h) cs ?a ?h'" .
  from ch(3) have "arrCombine (objs ?h' ?a) = []"
    by (simp add: touches_only_def new_SelectorBuild_empty)
  from stringify_built[OF b this] ok show ?thesis by simp
qed

theorem render_of_valid_sequence_witness:
  "sorted (map (canonical_index \<circ> key_of) [CallId ''main'', CallClass ''container'', CallClass ''editable'']) \<and>
   distinct (filter is_single (map key_of [CallId ''main'', CallClass ''container'', CallClass ''editable''])) \<and>
   fst (chain [CallId ''main'', CallClass ''container'', CallClass ''editable''] 0
          (snd (new_SelectorBuild heap0))) = Inr 0 \<and>
   stringify 0 (snd (chain [CallId ''main'', CallClass ''container'', CallClass ''editable''] 0
          (snd (new_SelectorBuild heap0)))) = ''#main.container.editable''"
proof -
  let ?cs = "[CallId ''main'', CallClass ''container'', CallClass ''editable'']"
  have s: "sorted (map (canonical_index \<circ> key_of) ?cs)"
    by (simp add: canonical_index_def positions_def)
  have d: "distinct (filter is_single (map key_of ?cs))"
    by (simp add: is_single_def)
  have n: "fst (new_SelectorBuild heap0) = 0" by (simp add: new_SelectorBuild_def heap0_def)
  have r: "canonical_render ?cs = ''#main.container.editable''"
    by (simp add: canonical_render_def frags_def positions_def)
  from render_of_valid_sequence[OF s d, of heap0] s d show ?thesis
    unfolding n r by simp
qed

text \<open>
  C5. For selectors \<open>a\<close> and \<open>b\<close> that are not results of a combination (their
  \<open>arrCombine\<close> is empty, as it is for every object that only part adders have worked
  on, see \<open>adders_leave_chain_empty\<close>), \<open>combine(a, tok, b).render()\<close> is
  \<open>a.render()\<close>, a space, the token as given, a space, \<open>b.render()\<close>. The arguments
  are objects that exist when the facade allocates the result.
\<close>

theorem combine_render:
  assumes "a < nextObj h" and "b < nextObj h"
    and "arrCombine (objs h a) = []" and "arrCombine (objs h b) = []"
  shows "stringify (fst (cssSelectorBuilder_combine a tok b h)) (snd (cssSelectorBuilder_combine a tok b h))
           = stringify a h @ '' '' @ tok @ '' '' @ stringify b h"
proof -
  let ?h' = "snd (cssSelectorBuilder_combine a tok b h)"
  have fl: "Array_flat ?h' vs = Array_flat h vs" for vs
    by (rule Array_flat_arrs) (simp add: cssSelectorBuilder_combine_eq[OF assms(1,2)])
  have "stringify (nextObj h) ?h' =
      Array_join (Array_flat ?h' (Map_values (selectors (objs h a)) @ [Str ('' '' @ tok @ '' '')]
                            @ Map_values (selectors (objs h b)) @ arrCombine (objs h b)))"
    by (simp add: cssSelectorBuilder_combine_eq[OF assms(1,2)] stringify_def)
  also have "\<dots> = stringify a h @ '' '' @ tok @ '' '' @ stringify b h"
    using assms(3,4) unfolding fl
    by (simp add: stringify_def Array_flat_append Array_join_def) (simp add: Array_flat_def)
  finally show ?thesis by (simp add: cssSelectorBuilder_combine_eq[OF assms(1,2)])
qed

theorem combine_render_witness:
  "0 < nextObj two_selectors \<and> 1 < nextObj two_selectors \<and>
   arrCombine (objs two_selectors 0) = [] \<and> arrCombine (objs two_selectors 1) = [] \<and>
   stringify 0 two_selectors = ''div#main'' \<and> stringify 1 two_selectors = ''table#data'' \<and>
   stringify (fst (cssSelectorBuilder_combine 0 ''+'' 1 two_selectors))
             (snd (cssSelectorBuilder_combine 0 ''+'' 1 two_selectors)) = ''div#main + table#data''"
proof -
  have 1: "0 < nextObj two_selectors" and 2: "1 < nextObj two_selectors"
    and 3: "arrCombine (objs two_selectors 0) = []" and 4: "arrCombine (objs two_selectors 1) = []"
    and 5: "stringify 0 two_selectors = ''div#main''" and 6: "stringify 1 two_selectors = ''table#data''"
    by (simp_all add: two_selectors_def eval_defs)
  from combine_render[OF 1 2 3 4, of "''+''"] 1 2 3 4 5 6 show ?thesis by simp
qed

text \<open>
  C6. Whatever the store and whatever happened to the first call, a second call of
  \<open>id\<close> on the same selector raises the duplicate error, also with other calls between
  the two; likewise for \<open>element\<close> and \<open>pseudoElement\<close>. The adders \<open>class\<close>, \<open>attr\<close>
  and \<open>pseudoClass\<close> raise the duplicate error on no store.
\<close>

theorem single_valued_twice_is_duplicate:
  "fst (id_sel w a (apply_all cs a (snd (id_sel v a h)))) = Inl DuplicatePartError \<and>
   fst (element w a (apply_all cs a (snd (element v a h)))) = Inl DuplicatePartError \<and>
   fst (pseudoElement w a (apply_all cs a (snd (pseudoElement v a h)))) = Inl DuplicatePartError \<and>
   fst (class_sel v a h) \<noteq> Inl DuplicatePartError \<and>
   fst (attr v a h) \<noteq> Inl DuplicatePartError \<and>
   fst (pseudoClass v a h) \<noteq> Inl DuplicatePartError"
  by (simp add: element_set_part id_set_part pseudoElement_set_part set_part_again
      class_push_part attr_push_part pseudoClass_push_part push_part_not_Dup)

theorem single_valued_twice_is_duplicate_witness:
  "fst (id_sel ''w'' 0 (apply_all [CallClass ''x''] 0 (snd (id_sel ''v'' 0 (snd (new_SelectorBuild heap0))))))
     = Inl DuplicatePartError \<and>
   fst (class_sel ''y'' 0 (snd (cssSelectorBuilder_class ''x'' heap0))) = Inr 0"
proof -
  have "fst (class_sel ''y'' 0 (snd (cssSelectorBuilder_class ''x'' heap0))) = Inr 0"
    by (simp add: eval_defs)
  with single_valued_twice_is_duplicate[of "''w''" 0 "[CallClass ''x'']" "''v''" "snd (new_SelectorBuild heap0)"]
  show ?thesis by simp
qed

text \<open>
  C7, as claimed: adding an element to a selector that has an id raises the order error.
  On \<open>element('a').id('b')\<close>, which has an id, \<open>element('c')\<close> raises the duplicate
  error: \<open>validUniq\<close> runs before anything else.
\<close>

theorem element_after_id_counterexample:
  "Map_has (selectors (objs element_then_id 0)) ''id'' \<and>
   fst (element ''c'' 0 element_then_id) = Inl DuplicatePartError"
  by (simp add: element_then_id_def eval_defs)

text \<open>
  C7, amended: on any store, adding a class to a selector that has an attribute and no
  class raises the order error, and adding an element to a selector that has an id and
  no element raises the order error.
\<close>

theorem order_error_for_new_kind:
  "(Map_has (selectors (objs h a)) ''attr'' \<and> \<not> Map_has (selectors (objs h a)) ''class''
      \<longrightarrow> fst (class_sel v a h) = Inl OrderViolationError) \<and>
   (Map_has (selectors (objs h a)) ''id'' \<and> \<not> Map_has (selectors (objs h a)) ''element''
      \<longrightarrow> fst (element v a h) = Inl OrderViolationError)"
  using class_after_attr[of h a v] element_after_id[of h a v] by blast

theorem order_error_for_new_kind_witness:
  "Map_has (selectors (objs only_attr 0)) ''attr'' \<and>
   \<not> Map_has (selectors (objs only_attr 0)) ''class'' \<and>
   fst (class_sel ''c'' 0 only_attr) = Inl OrderViolationError \<and>
   Map_has (selectors (objs only_id 0)) ''id'' \<and>
   \<not> Map_has (selectors (objs only_id 0)) ''element'' \<and>
   fst (element ''e'' 0 only_id) = Inl OrderViolationError"
proof -
  have 1: "Map_has (selectors (objs only_attr 0)) ''attr''"
    and 2: "\<not> Map_has (selectors (objs only_attr 0)) ''class''"
    by (simp_all add: only_attr_def eval_defs)
  have 3: "Map_has (selectors (objs only_id 0)) ''id''"
    and 4: "\<not> Map_has (selectors (objs only_id 0)) ''element''"
    by (simp_all add: only_id_def eval_defs)
  from order_error_for_new_kind[of only_attr 0 "''c''"] 1 2
  have 5: "fst (class_sel ''c'' 0 only_attr) = Inl OrderViolationError" by blast
  from order_error_for_new_kind[of only_id 0 "''e''"] 3 4
  have 6: "fst (element ''e'' 0 only_id) = Inl OrderViolationError" by blast
  from 1 2 3 4 5 6 show ?thesis by simp
qed

text \<open>
  C8. \<open>combine(left, token, right)\<close> of the facade leaves both arguments as they were:
  the objects at \<open>left\<close> and \<open>right\<close> (their parts and their combined chain) and every
  array are unchanged, so \<open>left.render()\<close> and \<open>right.render()\<close> give what they gave
  before. The result is a new object.
\<close>

theorem combine_does_not_mutate_inputs:
  assumes "left < nextObj h" and "right < nextObj h"
  shows "fst (cssSelectorBuilder_combine left tok right h) \<noteq> left \<and>
         fst (cssSelectorBuilder_combine left tok right h) \<noteq> right \<and>
         objs (snd (cssSelectorBuilder_combine left tok right h)) left = objs h left \<and>
         objs (snd (cssSelectorBuilder_combine left tok right h)) right = objs h right \<and>
         arrs (snd (cssSelectorBuilder_combine left tok right h)) = arrs h \<and>
         stringify left (snd (cssSelectorBuilder_combine left tok right h)) = stringify left h \<and>
         stringify right (snd (cssSelectorBuilder_combine left tok right h)) = stringify right h"
proof -
  let ?h' = "snd (cssSelectorBuilder_combine left tok right h)"
  have l: "objs ?h' left = objs h left" and r: "objs ?h' right = objs h right"
    and a: "arrs ?h' = arrs h"
    and n: "fst (cssSelectorBuilder_combine left tok right h) = nextObj h"
    using assms by (simp_all add: cssSelectorBuilder_combine_eq)
  have "stringify left ?h' = stringify left h" using a l by (rule stringify_frame)
  moreover have "stringify right ?h' = stringify right h" using a r by (rule stringify_frame)
  ultimately show ?thesis using l r a n assms by simp
qed

theorem combine_does_not_mutate_inputs_witness:
  "0 < nextObj two_selectors \<and> 1 < nextObj two_selectors \<and>
   fst (cssSelectorBuilder_combine 0 ''+'' 1 two_selectors) = 2 \<and>
   objs (snd (cssSelectorBuilder_combine 0 ''+'' 1 two_selectors)) 0 = objs two_selectors 0 \<and>
   objs (snd (cssSelectorBuilder_combine 0 ''+'' 1 two_selectors)) 1 = objs two_selectors 1 \<and>
   arrs (snd (cssSelectorBuilder_combine 0 ''+'' 1 two_selectors)) = arrs two_selectors \<and>
   stringify 0 (snd (cssSelectorBuilder_combine 0 ''+'' 1 two_selectors)) = ''div#main'' \<and>
   stringify 1 (snd (cssSelectorBuilder_combine 0 ''+'' 1 two_selectors)) = ''table#data''"
proof -
  have 1: "0 < nextObj two_selectors" and 2: "1 < nextObj two_selectors"
    and 3: "nextObj two_selectors = 2"
    and 5: "stringify 0 two_selectors = ''div#main''" and 6: "stringify 1 two_selectors = ''table#data''"
    by (simp_all add: two_selectors_def eval_defs)
  have 4: "fst (cssSelectorBuilder_combine 0 ''+'' 1 two_selectors) = 2"
    using 3 cssSelectorBuilder_combine_eq[OF 1 2, of "''+''"] by simp
  from combine_does_not_mutate_inputs[OF 1 2, of "''+''"] 1 2 4 5 6 show ?thesis by simp
qed

text \<open>
  C9. Let \<open>c\<close> be the result of \<open>combine(left, tok, right)\<close>, on a store where the array
  references of both arguments are allocated, as they are on every store the program
  can produce (\<open>reachable_refs_allocated\<close>). A sequence of calls that a new selector
  accepts is accepted by \<open>c\<close> as well, and the parts are stored in its \<open>Map\<close>; the
  combined chain is not empty, \<open>render()\<close> is the chain flattened and joined, and it
  is what it was before the calls.
\<close>

theorem parts_after_combine_ignored:
  assumes l: "left < nextObj h" and r: "right < nextObj h"
    and rl: "refs_allocated left h" and rr: "refs_allocated right h"
    and co: "cssSelectorBuilder_combine left tok right h = (c, h1)"
    and acc: "fst (chain cs (fst (new_SelectorBuild h0)) (snd (new_SelectorBuild h0)))
                = Inr (fst (new_SelectorBuild h0))"
  shows "fst (chain cs c h1) = Inr c \<and>
         Map_keys (selectors (objs (snd (chain cs c h1)) c)) = filter (\<lambda>k. k \<in> key_of ` set cs) positions \<and>
         arrCombine (objs (snd (chain cs c h1)) c) \<noteq> [] \<and>
         stringify c (snd (chain cs c h1))
           = Array_join (Array_flat (snd (chain cs c h1)) (arrCombine (objs (snd (chain cs c h1)) c))) \<and>
         stringify c (snd (chain cs c h1)) = stringify c h1"
proof -
  let ?h2 = "snd (chain cs c h1)"
  have fe: "first_error [] cs = None"
    using chain_accepted_iff[OF new_SelectorBuild_empty(1)[of h0], of cs] acc by auto
  from co have c: "c = nextObj h"
    and h1: "h1 = h\<lparr>objs := (objs h)(nextObj h :=
              \<lparr>selectors = [],
               arrCombine = Map_values (selectors (objs h left)) @ [Str ('' '' @ tok @ '' '')]
                            @ Map_values (selectors (objs h right)) @ arrCombine (objs h right)\<rparr>),
        nextObj := Suc (nextObj h)\<rparr>"
    using cssSelectorBuilder_combine_eq[OF l r, of tok] by auto
  have e: "selectors (objs h1 c) = []" by (simp add: c h1)
  have ne: "arrCombine (objs h1 c) \<noteq> []" by (simp add: c h1)
  have refs: "r' < nextArr h1" if "Arr r' \<in> set (arrCombine (objs h1 c))" for r'
    using that rl rr by (auto simp: c h1 refs_allocated_def)
  note ch = chain_from_empty[OF e, of cs]
  from ch(1) fe have ok: "fst (chain cs c h1) = Inr c" by simp
  from ch(2)[OF fe] have keys: "Map_keys (selectors (objs ?h2 c)) = filter (\<lambda>k. k \<in> key_of ` set cs) positions"
    by (simp add: built_def)
  from ch(3) have same: "arrCombine (objs ?h2 c) = arrCombine (objs h1 c)"
    and old: "\<And>r'. r' < nextArr h1 \<Longrightarrow> arrs ?h2 r' = arrs h1 r'"
    by (simp_all add: touches_only_def)
  have fl: "Array_flat ?h2 (arrCombine (objs h1 c)) = Array_flat h1 (arrCombine (objs h1 c))"
    by (rule Array_flat_agree) (simp add: old refs)
  have s2: "stringify c ?h2 = Array_join (Array_flat ?h2 (arrCombine (objs ?h2 c)))"
    using ne same by (simp add: stringify_def)
  have s1: "stringify c h1 = Array_join (Array_flat h1 (arrCombine (objs h1 c)))"
    using ne by (simp add: stringify_def)
  from ok keys ne same s2 s1 fl show ?thesis by simp
qed

theorem parts_after_combine_ignored_witness:
  "0 < nextObj two_classes \<and> 1 < nextObj two_classes \<and>
   refs_allocated 0 two_classes \<and> refs_allocated 1 two_classes \<and>
   fst (cssSelectorBuilder_combine 0 ''+'' 1 two_classes) = 2 \<and>
   fst (chain [CallClass ''x''] (fst (new_SelectorBuild heap0)) (snd (new_SelectorBuild heap0)))
     = Inr (fst (new_SelectorBuild heap0)) \<and>
   fst (chain [CallClass ''x''] 2 (snd (cssSelectorBuilder_combine 0 ''+'' 1 two_classes))) = Inr 2 \<and>
   stringify 2 (snd (cssSelectorBuilder_combine 0 ''+'' 1 two_classes)) = ''.a + .b'' \<and>
   stringify 2 (snd (chain [CallClass ''x''] 2 (snd (cssSelectorBuilder_combine 0 ''+'' 1 two_classes))))
     = ''.a + .b''"
proof -
  let ?h1 = "snd (cssSelectorBuilder_combine 0 ''+'' 1 two_classes)"
  have 1: "0 < nextObj two_classes" and 2: "1 < nextObj two_classes"
    by (simp_all add: two_classes_def eval_defs)
  have 3: "refs_allocated 0 two_classes" and 4: "refs_allocated 1 two_classes"
    by (simp_all add: refs_allocated_def two_classes_def eval_defs)
  have 5: "fst (cssSelectorBuilder_combine 0 ''+'' 1 two_classes) = 2"
    by (simp add: two_classes_def eval_defs)
  then have co: "cssSelectorBuilder_combine 0 ''+'' 1 two_classes = (2, ?h1)"
    by (simp add: prod_eq_iff)
  have acc: "fst (chain [CallClass ''x''] (fst (new_SelectorBuild heap0)) (snd (new_SelectorBuild heap0)))
               = Inr (fst (new_SelectorBuild heap0))"
    by (simp add: eval_defs)
  have s: "stringify 2 ?h1 = ''.a + .b''"
    by (simp add: two_classes_def eval_defs)
  from parts_after_combine_ignored[OF 1 2 3 4 co acc]
  have ok: "fst (chain [CallClass ''x''] 2 ?h1) = Inr 2"
    and same: "stringify 2 (snd (chain [CallClass ''x''] 2 ?h1)) = stringify 2 ?h1"
    by blast+
  from same s have fin: "stringify 2 (snd (chain [CallClass ''x''] 2 ?h1)) = ''.a + .b''"
    by (simp only:)
  show ?thesis by (intro conjI) (rule 1 2 3 4 5 acc ok s fin)+
qed

subsection \<open>C10: what \<open>fromJSON\<close> returns\<close>

text \<open>
  C10. The claim: for every prototype object \<open>proto\<close> and every JSON text that encodes an
  object, \<open>fromJSON(proto, json)\<close> returns a new value on which the methods of \<open>proto\<close>
  are available and whose own fields are exactly the fields parsed from the text. The
  function does so on the example of its comment (\<open>documented_fromJSON\<close>). It does not on
  a text with a member named \<open>__proto__\<close>. For
  \<open>fromJSON(Circle.prototype, '{"radius":10,"__proto__":{}}')\<close> the text parses to an
  object with the two fields \<open>radius\<close> and \<open>__proto__\<close> (address 4 below, the value of
  the second at address 5). \<open>Object.assign\<close> writes each of them to the new object
  (address 3) by assignment, and the assignment to \<open>__proto__\<close> finds the accessor of
  \<open>Object.prototype\<close> on the chain of \<open>Circle.prototype\<close> and calls its setter: the
  prototype of the returned object is the parsed \<open>{}\<close> and no longer the prototype that
  was passed, \<open>getArea\<close>, which reads as a function on \<open>Circle.prototype\<close>, reads as
  \<open>undefined\<close> on the returned object, and the returned object has the own field
  \<open>radius\<close> only.
\<close>

theorem fromJSON_proto_key:
  "parse_text (js ''{\"radius\":10,\"__proto__\":{}}'')
     = Some (JObject [(js ''radius'', JNumber (js ''10'')), (js ''__proto__'', JObject [])]) \<and>
   fst (fromJSON (Some 2) (js ''{\"radius\":10,\"__proto__\":{}}'') with_Circle) = Inr (VObject 3) \<and>
   prototype (object_at (snd (fromJSON (Some 2) (js ''{\"radius\":10,\"__proto__\":{}}'') with_Circle)) 3)
     = Some 5 \<and>
   properties (object_at (snd (fromJSON (Some 2) (js ''{\"radius\":10,\"__proto__\":{}}'') with_Circle)) 3)
     = [(js ''radius'', Data (VNumber (js ''10'')) True True)] \<and>
   properties (object_at (snd (fromJSON (Some 2) (js ''{\"radius\":10,\"__proto__\":{}}'') with_Circle)) 4)
     = [(js ''radius'', Data (VNumber (js ''10'')) True True),
        (js ''__proto__'', Data (VObject 5) True True)] \<and>
   get_property 2 (js ''getArea'') with_Circle = VFunction 101 \<and>
   get_property 3 (js ''getArea'')
     (snd (fromJSON (Some 2) (js ''{\"radius\":10,\"__proto__\":{}}'') with_Circle)) = VUndefined"
  by (simp add: js_eval)

end
